theory Spec2Isabelle
  imports Complex_Main
begin

section \<open>Python values, exceptions and effects\<close>

text \<open>
  The two notebooks are Python. The values that cross the inference contract are what
  \<^verbatim>\<open>json.loads\<close> produces and \<^verbatim>\<open>json.dumps\<close> accepts: \<^verbatim>\<open>None\<close>, booleans,
  numbers, strings, lists and dicts. A dict is kept as an association list in insertion
  order; the first pair with a key is the binding of that key. Numbers are rationals:
  the theory never rounds, so every statement about a number below is a statement about
  exact arithmetic.
\<close>

datatype json =
    JNull
  | JBool bool
  | JNum rat
  | JStr string
  | JArr "json list"
  | JObj "(string \<times> json) list"

text \<open>
  Exceptions are values. The constructor says which Python exception it is; the string
  of \<open>NameError\<close> and \<open>KeyError\<close> is the name or key, that of \<open>Exception\<close> its message,
  and \<open>Raised\<close> stands for whatever an external service or library raised (a bare
  \<^verbatim>\<open>except:\<close> catches every one of them alike).
\<close>

datatype exn =
    NameError string
  | KeyError string
  | IndexError
  | ValueError
  | TypeError
  | AttributeError
  | ZeroDivisionError
  | JSONDecodeError
  | Exception string
  | Raised string

section \<open>The inference handlers (\<^verbatim>\<open>scripts/inference/inf2/inference.py\<close>)\<close>

definition JSON_CONTENT_TYPE :: string where
  "JSON_CONTENT_TYPE = ''application/json''"

text \<open>
  \<^verbatim>\<open>d.pop(key, default)\<close> by the type of \<open>d\<close>. On a dict it returns the value bound to
  the key and removes that entry, or returns the default and leaves the dict alone. A list
  has a \<^verbatim>\<open>pop\<close> of at most one argument (TypeError); the other values have no attribute
  \<^verbatim>\<open>pop\<close> (AttributeError). The second component is the receiver after the call.
\<close>

fun py_pop :: "json \<Rightarrow> string \<Rightarrow> json \<Rightarrow> exn + (json \<times> json)" where
  "py_pop (JObj kvs) key dflt =
     (case map_of kvs key of
        Some v \<Rightarrow> Inr (v, JObj (filter (\<lambda>kv. fst kv \<noteq> key) kvs))
      | None \<Rightarrow> Inr (dflt, JObj kvs))"
| "py_pop (JArr xs) key dflt = Inl TypeError"
| "py_pop JNull key dflt = Inl AttributeError"
| "py_pop (JBool b) key dflt = Inl AttributeError"
| "py_pop (JNum r) key dflt = Inl AttributeError"
| "py_pop (JStr s) key dflt = Inl AttributeError"

text \<open>
  \<^verbatim>\<open>input_fn(serialized_input_data, content_type)\<close>. The library function
  \<^verbatim>\<open>json.loads\<close> is the parameter \<open>loads\<close>; what it raises on text that is not JSON
  propagates.
\<close>

definition input_fn :: "(string \<Rightarrow> exn + json) \<Rightarrow> string \<Rightarrow> string \<Rightarrow> exn + json" where
  "input_fn loads serialized_input_data content_type =
     (if content_type = JSON_CONTENT_TYPE then
        (case loads serialized_input_data of
           Inl e \<Rightarrow> Inl e
         | Inr input_data \<Rightarrow>
             (case py_pop input_data ''inputs'' input_data of
                Inl e \<Rightarrow> Inl e
              | Inr (v, _) \<Rightarrow> Inr v))
      else Inl (Exception (''Requested unsupported ContentType in Accept: '' @ content_type)))"


text \<open>
  The names \<^verbatim>\<open>inference.py\<close> binds at module level, in the order of the file: four
  imports, two string constants and the four handlers. A name a function body uses
  without assigning it is looked up here; a name that is not bound raises NameError.
  \<open>Model\<close> is an object loaded with \<^verbatim>\<open>torch.jit.load\<close>; the module binds none at
  its top level (\<^verbatim>\<open>neuron_model\<close> is a local variable of \<^verbatim>\<open>model_fn\<close>).
\<close>

datatype 'm pyobj = Module | StrConst string | Class | Function | Model 'm

definition inference_py_globals :: "(string \<times> 'm pyobj) list" where
  "inference_py_globals =
     [(''os'', Module), (''json'', Module), (''torch'', Module), (''torch_neuronx'', Module),
      (''AutoTokenizer'', Class),
      (''JSON_CONTENT_TYPE'', StrConst ''application/json''),
      (''MODEL_ID'', StrConst ''facebook/esm2_t6_8M_UR50D''),
      (''model_fn'', Function), (''input_fn'', Function),
      (''predict_fn'', Function), (''output_fn'', Function)]"

text \<open>
  The tokenizer and the traced model are library objects, taken as they are used.
  \<open>encode_plus tok text n\<close> is
  \<^verbatim>\<open>tokenizer.encode_plus(text, max_length=n, padding="max_length", truncation=True, return_tensors="pt")\<close>
  for the one sequence of the batch; \<open>vocab_keys\<close> is
  \<^verbatim>\<open>list(tokenizer.get_vocab().keys())\<close>. A model maps the two tensors to the logits of
  the one batch element, a row per position. The number type \<open>'f\<close> of the tensors, the
  sigmoid and the rounding to three digits stay abstract.
\<close>

record tokenized =
  input_ids :: "nat list"
  attention_mask :: "nat list"

record tokenizer =
  encode_plus :: "json \<Rightarrow> nat \<Rightarrow> exn + tokenized"
  mask_token_id :: nat
  vocab_keys :: "string list"

type_synonym 'f model = "nat list \<Rightarrow> nat list \<Rightarrow> exn + 'f list list"

text \<open>Calling the object a global name is bound to, with the two tensors.\<close>

definition call_global :: "(string \<times> 'f model pyobj) list \<Rightarrow> string \<Rightarrow> nat list \<Rightarrow> nat list
    \<Rightarrow> exn + 'f list list" where
  "call_global globals name ids att =
     (case map_of globals name of
        None \<Rightarrow> Inl (NameError name)
      | Some (Model m) \<Rightarrow> m ids att
      | Some _ \<Rightarrow> Inl TypeError)"

text \<open>
  The dict comprehension \<^verbatim>\<open>{keys[idx]: round(v.item(), 3) for idx, v in enumerate(row)}\<close>:
  reading a key beyond the vocabulary raises IndexError, and a key met again is rebound.
\<close>

fun vocab_dict :: "string list \<Rightarrow> ('f \<Rightarrow> 'f) \<Rightarrow> nat \<Rightarrow> 'f list \<Rightarrow> (string \<times> 'f) list
    \<Rightarrow> exn + (string \<times> 'f) list" where
  "vocab_dict keys round3 idx [] acc = Inr acc"
| "vocab_dict keys round3 idx (v # vs) acc =
     (if idx < length keys
      then vocab_dict keys round3 (Suc idx) vs
             (if keys ! idx \<in> fst ` set acc
              then map (\<lambda>kv. if fst kv = keys ! idx then (fst kv, round3 v) else kv) acc
              else acc @ [(keys ! idx, round3 v)])
      else Inl IndexError)"

text \<open>
  \<^verbatim>\<open>predict_fn(input_data, model_and_tokenizer)\<close>. The pair is unpacked into
  \<open>model_bert\<close> and \<open>tokenizer\<close>, but the call goes to the name \<^verbatim>\<open>neuron_model\<close>,
  which is resolved in \<open>globals\<close>. The rows of the mask positions are selected, and the
  first of them (IndexError without one) becomes the dict.
\<close>

definition predict_fn :: "(string \<times> 'f model pyobj) list \<Rightarrow> ('f \<Rightarrow> 'f) \<Rightarrow> ('f \<Rightarrow> 'f)
    \<Rightarrow> json \<Rightarrow> 'f model \<times> tokenizer \<Rightarrow> exn + (string \<times> 'f) list" where
  "predict_fn globals sigmoid round3 input_data model_and_tokenizer =
     (case model_and_tokenizer of (model_bert, tokenizer) \<Rightarrow>
      (let max_length = 128 in
       (case encode_plus tokenizer input_data max_length of
        Inl e \<Rightarrow> Inl e
      | Inr tokenized_sequence \<Rightarrow>
          (case call_global globals ''neuron_model''
                  (input_ids tokenized_sequence) (attention_mask tokenized_sequence) of
             Inl e \<Rightarrow> Inl e
           | Inr output \<Rightarrow>
               let mask_token_index =
                     filter (\<lambda>i. input_ids tokenized_sequence ! i = mask_token_id tokenizer)
                       [0..<length (input_ids tokenized_sequence)]
               in if \<exists>i \<in> set mask_token_index. length output \<le> i then Inl IndexError
                  else
                    let mask_index_predictions = map (\<lambda>i. output ! i) mask_token_index;
                        probs = map (map sigmoid) mask_index_predictions
                    in (case probs of
                          [] \<Rightarrow> Inl IndexError
                        | row # _ \<Rightarrow> vocab_dict (vocab_keys tokenizer) round3 0 row [])))))"

section \<open>Effects of the notebook cells\<close>

text \<open>
  A computation runs in a state and either raises or returns, leaving a state behind.
  \<open>py_try body handler\<close> is \<^verbatim>\<open>try: body  except: handler\<close> with a bare \<^verbatim>\<open>except\<close>,
  which catches every exception.
\<close>

type_synonym ('a, 's) py = "'s \<Rightarrow> (exn + 'a) \<times> 's"

definition py_return :: "'a \<Rightarrow> ('a, 's) py" where
  "py_return x s = (Inr x, s)"

definition py_raise :: "exn \<Rightarrow> ('a, 's) py" where
  "py_raise e s = (Inl e, s)"

definition py_bind :: "('a, 's) py \<Rightarrow> ('a \<Rightarrow> ('b, 's) py) \<Rightarrow> ('b, 's) py" where
  "py_bind m f s = (case m s of (Inl e, s') \<Rightarrow> (Inl e, s') | (Inr x, s') \<Rightarrow> f x s')"

definition py_try :: "('a, 's) py \<Rightarrow> (exn \<Rightarrow> ('a, 's) py) \<Rightarrow> ('a, 's) py" where
  "py_try body handler s =
     (case body s of (Inl e, s') \<Rightarrow> handler e s' | (Inr x, s') \<Rightarrow> (Inr x, s'))"

subsection \<open>The world of the benchmark cell\<close>

text \<open>
  What the benchmark reads from outside is part of the state: \<open>clock k\<close> is the value of
  the \<open>k\<close>-th call of \<^verbatim>\<open>time.time()\<close>, \<open>rnd k\<close> the raw value behind the \<open>k\<close>-th draw
  from the \<^verbatim>\<open>random\<close> module, and \<open>endpoint k data\<close> what the \<open>k\<close>-th invocation of the
  hosted endpoint does with the payload \<open>data\<close>: it raises or returns the decoded
  response. \<open>ticks\<close> and \<open>draws\<close> count the readings and draws made, and \<open>sent\<close> is the
  log of the payloads submitted to the endpoint, oldest first.
\<close>

record world =
  clock :: "nat \<Rightarrow> rat"
  ticks :: nat
  rnd :: "nat \<Rightarrow> nat"
  draws :: nat
  endpoint :: "nat \<Rightarrow> json \<Rightarrow> exn + json"
  sent :: "json list"

definition time_time :: "(rat, world) py" where
  "time_time w = (Inr (clock w (ticks w)), w\<lparr>ticks := Suc (ticks w)\<rparr>)"

text \<open>
  \<^verbatim>\<open>predictor.predict(data)\<close>: one invocation of the endpoint, as the notebook sees it.
  What the client library does below this call is not part of the notebook.
\<close>

definition predictor_predict :: "json \<Rightarrow> (json, world) py" where
  "predictor_predict data w =
     (endpoint w (length (sent w)) data, w\<lparr>sent := sent w @ [data]\<rparr>)"

text \<open>
  \<^verbatim>\<open>random.choice(xs)\<close> raises IndexError on an empty list; \<^verbatim>\<open>random.randint(a, b)\<close>
  raises ValueError when the range \<open>a..b\<close> is empty, and otherwise returns a member of it.
\<close>

definition random_choice :: "'a list \<Rightarrow> ('a, world) py" where
  "random_choice xs w =
     (if xs = [] then (Inl IndexError, w)
      else (Inr (xs ! (rnd w (draws w) mod length xs)), w\<lparr>draws := Suc (draws w)\<rparr>))"

definition random_randint :: "int \<Rightarrow> int \<Rightarrow> (int, world) py" where
  "random_randint a b w =
     (if b < a then (Inl ValueError, w)
      else (Inr (a + int (rnd w (draws w) mod nat (b - a + 1))), w\<lparr>draws := Suc (draws w)\<rparr>))"

text \<open>The slice \<^verbatim>\<open>xs[:m]\<close> and the assignment \<^verbatim>\<open>xs[i] = v\<close>, for any integers.\<close>

definition slice_to :: "'a list \<Rightarrow> int \<Rightarrow> 'a list" where
  "slice_to xs m = (if 0 \<le> m then take (nat m) xs else take (nat (int (length xs) + m)) xs)"

definition setitem :: "'a list \<Rightarrow> int \<Rightarrow> 'a \<Rightarrow> exn + 'a list" where
  "setitem xs i v =
     (if 0 \<le> i \<and> i < int (length xs) then Inr (xs[nat i := v])
      else if i < 0 \<and> - int (length xs) \<le> i then Inr (xs[nat (int (length xs) + i) := v])
      else Inl IndexError)"

subsection \<open>The benchmarking helpers\<close>

text \<open>The dict \<^verbatim>\<open>{"latency": ..., "error": ..., "result": ...}\<close> of one request.\<close>

record measurement =
  latency :: rat
  error :: bool
  result :: json

text \<open>
  \<^verbatim>\<open>inference_latency(model, inputs)\<close>: the clock is read, the model is called inside
  \<^verbatim>\<open>try\<close>, and the clock is read again for the dict that is returned.
\<close>

definition inference_latency :: "(json \<Rightarrow> (json, world) py) \<Rightarrow> json \<Rightarrow> (measurement, world) py" where
  "inference_latency model inputs =
     py_bind time_time (\<lambda>start.
     py_bind (py_try (py_bind (model inputs) (\<lambda>results. py_return (False, results)))
                     (\<lambda>_. py_return (True, JArr [])))
       (\<lambda>(err, results).
     py_bind time_time (\<lambda>finish.
     py_return \<lparr>latency = finish - start, error = err, result = results\<rparr>)))"

text \<open>
  \<^verbatim>\<open>random_sequence(max_length=128)\<close> over the global list \<open>uniref\<close> of sequences: a
  sequence is chosen, cut, split into characters, one of which is overwritten, and joined.
\<close>

definition random_sequence :: "string list \<Rightarrow> int \<Rightarrow> (string, world) py" where
  "random_sequence uniref max_length =
     py_bind (random_choice uniref) (\<lambda>seq0.
     let seq1 = map (\<lambda>c. [c]) (slice_to seq0 max_length) in
     py_bind (random_randint 0 (int (length seq1) - 1)) (\<lambda>i.
     (case setitem seq1 i ''<mask>'' of
        Inl e \<Rightarrow> py_raise e
      | Inr seq2 \<Rightarrow> py_return (concat seq2))))"

text \<open>
  The parallel map of \<^verbatim>\<open>benchmark\<close>,
  \<^verbatim>\<open>Parallel(n_jobs=number_of_clients, prefer="threads")(delayed(inference_latency)(predictor.predict, {"inputs": random_sequence()}) for mod in t)\<close>.
  The generator is consumed in order, one task per element of \<^verbatim>\<open>range(number_of_runs)\<close>;
  building a task draws its sequence. A worker thread runs a task that has been built:
  it reads the clock, invokes the endpoint inside \<^verbatim>\<open>try\<close>, and reads the clock again.
  The threads interleave, so a run of the map is a sequence of events, its schedule.
\<close>

datatype event = Build | Start nat | Invoke nat | Finish nat

text \<open>
  How far a task is: built and waiting, past its first clock reading (which it holds),
  past its invocation (whose outcome it holds), or finished with its record.
\<close>

datatype phase = Pending | Started rat | Invoked rat "exn + json" | Done measurement

fun busy :: "phase \<Rightarrow> bool" where
  "busy (Started t) = True"
| "busy (Invoked t out) = True"
| "busy ph = False"

fun finished :: "phase \<Rightarrow> bool" where
  "finished (Done m) = True"
| "finished ph = False"

text \<open>
  The state of the map: the world, the tasks built so far in the order of the generator,
  each with its payload and phase, and the exception that has ended the dispatch, if any.
\<close>

record pool =
  env :: world
  tasks :: "(json \<times> phase) list"
  raised :: "exn option"

text \<open>
  \<^verbatim>\<open>Parallel\<close> refuses \<^verbatim>\<open>n_jobs=0\<close> with ValueError; a negative \<^verbatim>\<open>n_jobs\<close> counts back
  from the number of processors, and at least one worker is used.
\<close>

definition effective_n_jobs :: "nat \<Rightarrow> int \<Rightarrow> exn + nat" where
  "effective_n_jobs cpu_count n_jobs =
     (if n_jobs = 0 then Inl ValueError
      else if n_jobs < 0 then Inr (max (nat (int cpu_count + 1 + n_jobs)) 1)
      else Inr (nat n_jobs))"

text \<open>
  One event in a state; \<open>None\<close> when the event cannot happen there. Every
  interleaving of the threads is a schedule of these events: tasks are built in the
  order of the generator, a task runs after it is built, and at most \<open>workers\<close> tasks
  are running at a time.
  \<^item> \<open>Build\<close>: the next task is built, while the generator has elements left and has not
    raised. An exception of \<open>random_sequence\<close> ends the dispatch. With one worker the
    map is sequential: a task is built only when every task before it has finished.
    With more workers tasks may be built any number ahead of the running ones.
  \<^item> \<open>Start i\<close>: a free worker takes the waiting task \<open>i\<close> and reads the clock.
  \<^item> \<open>Invoke i\<close>: the worker of task \<open>i\<close> calls \<^verbatim>\<open>predictor.predict\<close> on its payload and
    keeps what the call did.
  \<^item> \<open>Finish i\<close>: the worker reads the clock again and returns the record of the task.
\<close>

fun pool_step :: "string list \<Rightarrow> nat \<Rightarrow> nat \<Rightarrow> event \<Rightarrow> pool \<Rightarrow> pool option" where
  "pool_step uniref workers number_of_runs Build p =
     (if raised p = None \<and> length (tasks p) < number_of_runs
         \<and> (2 \<le> workers \<or> list_all finished (map snd (tasks p)))
      then (case random_sequence uniref 128 (env p) of
              (Inl e, w') \<Rightarrow> Some (p\<lparr>env := w', raised := Some e\<rparr>)
            | (Inr s, w') \<Rightarrow>
                Some (p\<lparr>env := w',
                        tasks := tasks p @ [(JObj [(''inputs'', JStr s)], Pending)]\<rparr>))
      else None)"
| "pool_step uniref workers number_of_runs (Start i) p =
     (if i < length (tasks p) \<and> snd (tasks p ! i) = Pending
         \<and> length (filter busy (map snd (tasks p))) < workers
      then (case time_time (env p) of
              (Inl e, w') \<Rightarrow> Some (p\<lparr>env := w', raised := Some e\<rparr>)
            | (Inr start, w') \<Rightarrow>
                Some (p\<lparr>env := w',
                        tasks := (tasks p)[i := (fst (tasks p ! i), Started start)]\<rparr>))
      else None)"
| "pool_step uniref workers number_of_runs (Invoke i) p =
     (if i < length (tasks p)
      then (case snd (tasks p ! i) of
              Started start \<Rightarrow>
                (case predictor_predict (fst (tasks p ! i)) (env p) of
                   (out, w') \<Rightarrow>
                     Some (p\<lparr>env := w',
                             tasks := (tasks p)[i := (fst (tasks p ! i), Invoked start out)]\<rparr>))
            | _ \<Rightarrow> None)
      else None)"
| "pool_step uniref workers number_of_runs (Finish i) p =
     (if i < length (tasks p)
      then (case snd (tasks p ! i) of
              Invoked start out \<Rightarrow>
                (case time_time (env p) of
                   (Inl e, w') \<Rightarrow> Some (p\<lparr>env := w', raised := Some e\<rparr>)
                 | (Inr finish, w') \<Rightarrow>
                     Some (p\<lparr>env := w',
                             tasks := (tasks p)[i := (fst (tasks p ! i),
                               Done \<lparr>latency = finish - start, error = isl out,
                                     result = (case out of Inl e \<Rightarrow> JArr [] | Inr v \<Rightarrow> v)\<rparr>)]\<rparr>))
            | _ \<Rightarrow> None)
      else None)"

text \<open>A schedule from a state: every event in its turn, if each can happen.\<close>

fun pool_run :: "string list \<Rightarrow> nat \<Rightarrow> nat \<Rightarrow> event list \<Rightarrow> pool \<Rightarrow> pool option" where
  "pool_run uniref workers number_of_runs [] p = Some p"
| "pool_run uniref workers number_of_runs (ev # evs) p =
     (case pool_step uniref workers number_of_runs ev p of
        None \<Rightarrow> None
      | Some p' \<Rightarrow> pool_run uniref workers number_of_runs evs p')"

definition pool_start :: "world \<Rightarrow> pool" where
  "pool_start w = \<lparr>env = w, tasks = [], raised = None\<rparr>"

fun record_of :: "phase \<Rightarrow> measurement list" where
  "record_of (Done m) = [m]"
| "record_of ph = []"

text \<open>
  What the parallel map gives for a schedule, with the world it leaves: the exception
  that ended the dispatch, or, when every task of the generator has been built and has
  finished, the records of the tasks in the order of the tasks. \<open>None\<close>: the schedule is
  not a run of the map, because an event of it cannot happen or because it stops before
  the map is over.
\<close>

definition benchmark_requests ::
    "nat \<Rightarrow> string list \<Rightarrow> int \<Rightarrow> nat \<Rightarrow> event list \<Rightarrow> world
     \<Rightarrow> ((exn + measurement list) \<times> world) option" where
  "benchmark_requests cpu_count uniref number_of_clients number_of_runs schedule w =
     (case effective_n_jobs cpu_count number_of_clients of
        Inl e \<Rightarrow> (if schedule = [] then Some (Inl e, w) else None)
      | Inr workers \<Rightarrow>
          (case pool_run uniref workers number_of_runs schedule (pool_start w) of
             None \<Rightarrow> None
           | Some p \<Rightarrow>
               (case raised p of
                  Some e \<Rightarrow> Some (Inl e, env p)
                | None \<Rightarrow>
                    if length (tasks p) = number_of_runs
                       \<and> list_all finished (map snd (tasks p))
                    then Some (Inr (concat (map (record_of \<circ> snd) (tasks p))), env p)
                    else None)))"

subsection \<open>Latency statistics\<close>

text \<open>
  \<^verbatim>\<open>np.quantile(a, q)\<close> with NumPy's default method, linear interpolation: the sorted
  data is read at the position \<open>q * (n - 1)\<close>, between its two neighbours. A \<open>q\<close>
  outside \<open>0..1\<close> is refused with ValueError. The empty array is an error value here;
  \<^verbatim>\<open>benchmark\<close> never passes one, since it divides by the number of results first.
\<close>

definition np_quantile :: "rat list \<Rightarrow> rat \<Rightarrow> exn + rat" where
  "np_quantile a q =
     (if q < 0 \<or> 1 < q then Inl ValueError
      else if a = [] then Inl IndexError
      else
        let arr = sort a;
            n = length arr;
            virtual_index = q * of_nat (n - 1);
            previous = nat \<lfloor>virtual_index\<rfloor>;
            following = min (previous + 1) (n - 1);
            gamma = virtual_index - of_nat previous
        in Inr (arr ! previous + gamma * (arr ! following - arr ! previous)))"

text \<open>The slice \<^verbatim>\<open>xs[-10000:]\<close>: the last 10000 elements, or all of a shorter list.\<close>

definition last_10000 :: "'a list \<Rightarrow> 'a list" where
  "last_10000 xs = drop (length xs - 10000) xs"

text \<open>
  The figures \<^verbatim>\<open>benchmark\<close> prints after the parallel map, under the labels
  \<^verbatim>\<open>Errors percentage\<close>, \<^verbatim>\<open>50th Percentile Latency\<close>, \<^verbatim>\<open>90th Percentile Latency\<close> and
  \<^verbatim>\<open>95th Percentile Latency\<close>. The percentage divides by the number of results, so a
  run without requests ends here with ZeroDivisionError. The throughput, which is read
  from the progress bar, and the period of the monitoring query are left out.
\<close>

record statistics =
  error_p :: rat
  p50 :: rat
  p90 :: rat
  p95 :: rat

definition benchmark_statistics :: "measurement list \<Rightarrow> exn + statistics" where
  "benchmark_statistics results =
     (let latencies = map latency results;
          errors = map error results
      in if length errors = 0 then Inl ZeroDivisionError
         else
           (case np_quantile (last_10000 latencies) (50 / 100) of
              Inl e \<Rightarrow> Inl e
            | Inr q50 \<Rightarrow>
           (case np_quantile (last_10000 latencies) (95 / 100) of
              Inl e \<Rightarrow> Inl e
            | Inr q90 \<Rightarrow>
           (case np_quantile (last_10000 latencies) (99 / 100) of
              Inl e \<Rightarrow> Inl e
            | Inr q95 \<Rightarrow>
                Inr \<lparr>error_p = of_nat (length (filter id errors)) / of_nat (length errors) * 100,
                     p50 = q50 * 1000, p90 = q90 * 1000, p95 = q95 * 1000\<rparr>))))"

subsection \<open>Polling the monitoring service\<close>

text \<open>
  One datapoint of a \<^verbatim>\<open>get_metric_statistics\<close> response, and the figures the loop
  reads from the first datapoint; a statistic that is missing raises KeyError.
\<close>

record datapoint =
  SampleCount :: rat
  Average :: rat
  ExtendedStatistics :: "(string \<times> rat) list"

record side_latency =
  side_avg :: rat
  side_p50 :: rat
  side_p90 :: rat
  side_p95 :: rat
  side_p100 :: rat

definition extended :: "datapoint \<Rightarrow> string \<Rightarrow> exn + rat" where
  "extended d key =
     (case map_of (ExtendedStatistics d) key of
        None \<Rightarrow> Inl (KeyError key)
      | Some v \<Rightarrow> Inr (v / 1000))"

definition read_datapoint :: "datapoint \<Rightarrow> exn + side_latency" where
  "read_datapoint d =
     (case extended d ''p50'' of Inl e \<Rightarrow> Inl e | Inr v50 \<Rightarrow>
     (case extended d ''p90'' of Inl e \<Rightarrow> Inl e | Inr v90 \<Rightarrow>
     (case extended d ''p95'' of Inl e \<Rightarrow> Inl e | Inr v95 \<Rightarrow>
     (case extended d ''p100'' of Inl e \<Rightarrow> Inl e | Inr v100 \<Rightarrow>
        Inr \<lparr>side_avg = Average d / 1000, side_p50 = v50, side_p90 = v90,
             side_p95 = v95, side_p100 = v100\<rparr>))))"

text \<open>
  The loop \<^verbatim>\<open>while not cloudwatch_ready\<close>. The monitoring service is the sequence
  \<open>cloudwatch\<close> of its responses, each the list under \<^verbatim>\<open>"Datapoints"\<close>; \<open>k\<close> is the number
  of queries made before this round. A round sleeps, queries, and either finds no
  datapoint and goes round again, or reads the first datapoint and leaves the loop. The
  result is the number of rounds made with what the last one read; \<open>None\<close> is a loop
  that never ends.
\<close>

partial_function (option) poll_cloudwatch ::
    "(nat \<Rightarrow> datapoint list) \<Rightarrow> nat \<Rightarrow> (nat \<times> (exn + side_latency)) option" where
  "poll_cloudwatch cloudwatch k =
     (case cloudwatch k of
        [] \<Rightarrow> poll_cloudwatch cloudwatch (Suc k)
      | d # _ \<Rightarrow> Some (Suc k, read_datapoint d))"

subsection \<open>The cleanup cells\<close>

text \<open>
  The hosting service keeps the endpoints that are \<open>live\<close>; \<open>requested\<close> logs the
  endpoints whose deletion was asked for, oldest first. \<open>fails name\<close> is the exception
  the deletion of that endpoint raises, if it raises; a deletion that raises leaves the
  endpoint as it was.
\<close>

record hosting =
  live :: "string list"
  requested :: "string list"

definition delete_endpoint :: "(string \<Rightarrow> exn option) \<Rightarrow> string \<Rightarrow> (unit, hosting) py" where
  "delete_endpoint fails name h =
     (case fails name of
        Some e \<Rightarrow> (Inl e, h\<lparr>requested := requested h @ [name]\<rparr>)
      | None \<Rightarrow> (Inr (), h\<lparr>live := removeAll name (live h), requested := requested h @ [name]\<rparr>))"

text \<open>The last cell of the deployment notebook: both deletions in one \<^verbatim>\<open>try\<close>.\<close>

definition cleanup_deploy :: "(string \<Rightarrow> exn option) \<Rightarrow> string \<Rightarrow> string \<Rightarrow> (unit, hosting) py" where
  "cleanup_deploy fails inf2_predictor g5_predictor =
     py_try (py_bind (delete_endpoint fails inf2_predictor) (\<lambda>_.
             delete_endpoint fails g5_predictor))
            (\<lambda>_. py_return ())"

text \<open>The last cell of the fine-tuning notebook.\<close>

definition cleanup_finetune :: "(string \<Rightarrow> exn option) \<Rightarrow> string \<Rightarrow> (unit, hosting) py" where
  "cleanup_finetune fails predictor =
     py_try (delete_endpoint fails predictor) (\<lambda>_. py_return ())"

section \<open>Concrete inputs\<close>

text \<open>
  A world given by the first clock readings, the first raw random values and the
  outcomes of the first invocations of the endpoint; nothing has happened in it yet.
  Past the lists the clock reads 0, the random value is 0 and the endpoint is
  unavailable.
\<close>

definition world_of :: "rat list \<Rightarrow> nat list \<Rightarrow> (exn + json) list \<Rightarrow> world" where
  "world_of readings raws outcomes =
     \<lparr>clock = (\<lambda>k. if k < length readings then readings ! k else 0),
      ticks = 0,
      rnd = (\<lambda>k. if k < length raws then raws ! k else 0),
      draws = 0,
      endpoint = (\<lambda>k data. if k < length outcomes then outcomes ! k
                             else Inl (Raised ''unavailable'')),
      sent = []\<rparr>"

text \<open>
  \<^verbatim>\<open>json.loads\<close> on three payloads: an array, an object without the key
  \<^verbatim>\<open>inputs\<close> and a request of the contract. Every other payload is left undecoded
  here; on these three texts it agrees with the library.
\<close>

definition loads_literal :: "string \<Rightarrow> exn + json" where
  \<open>loads_literal s =
     (if s = ''[]'' then Inr (JArr [])
      else if s = ''{}'' then Inr (JObj [])
      else if s = ''{"inputs": "MK<mask>"}'' then Inr (JObj [(''inputs'', JStr ''MK<mask>'')])
      else Inl JSONDecodeError)\<close>

text \<open>A run of two requests, of 0 and of 1 second, the second of which failed.\<close>

definition two_requests :: "measurement list" where
  "two_requests =
     [\<lparr>latency = 0, error = False, result = JObj []\<rparr>,
      \<lparr>latency = 1, error = True, result = JArr []\<rparr>]"

text \<open>A monitoring service that has its datapoint \<open>d\<close> from the \<open>n\<close>-th query on, and one that never has any.\<close>

definition cloudwatch_after :: "nat \<Rightarrow> datapoint \<Rightarrow> nat \<Rightarrow> datapoint list" where
  "cloudwatch_after n d k = (if k < n then [] else [d])"

definition cloudwatch_silent :: "nat \<Rightarrow> datapoint list" where
  "cloudwatch_silent k = []"

definition a_datapoint :: datapoint where
  "a_datapoint =
     \<lparr>SampleCount = 10000, Average = 2500,
      ExtendedStatistics = [(''p50'', 2000), (''p90'', 4000), (''p95'', 5000), (''p100'', 9000)]\<rparr>"

text \<open>A hosting service with the two endpoints of the deployment notebook.\<close>

definition two_endpoints :: hosting where
  "two_endpoints = \<lparr>live = [''esm-inf2'', ''esm-g5''], requested = []\<rparr>"

definition inf2_denied :: "string \<Rightarrow> exn option" where
  "inf2_denied name = (if name = ''esm-inf2'' then Some (Raised ''ClientError'') else None)"

definition none_denied :: "string \<Rightarrow> exn option" where
  "none_denied name = None"

text \<open>The positions at which the word \<open>w\<close> stands in \<open>xs\<close>.\<close>

definition occurrences :: "'a list \<Rightarrow> 'a list \<Rightarrow> nat list" where
  "occurrences w xs = filter (\<lambda>i. take (length w) (drop i xs) = w) [0..<Suc (length xs)]"

text \<open>
  A world whose clock reads 10, 12, 20 and 25, and whose endpoint serves the first
  invocation and fails on the second.
\<close>

definition two_call_world :: world where
  "two_call_world =
     world_of [10, 12, 20, 25] [0, 1, 0, 2]
       [Inr (JObj [(''K'', JNum (1 / 2))]), Inl (Raised ''ModelError'')]"

section \<open>Vocabulary of the properties\<close>

text \<open>
  The request the generator yields in the \<open>i\<close>-th place: building a task takes two
  draws, so the \<open>i\<close>-th sequence is drawn from the draw \<open>2 * i\<close> on.
\<close>

definition generated :: "string list \<Rightarrow> world \<Rightarrow> nat \<Rightarrow> exn + string" where
  "generated uniref w i = fst (random_sequence uniref 128 (w\<lparr>draws := draws w + 2 * i\<rparr>))"

text \<open>
  The tasks whose payload a schedule submits to the endpoint, in the order of the
  submissions, and the events of a schedule that read the clock, in their order.
\<close>

fun submissions :: "event list \<Rightarrow> nat list" where
  "submissions [] = []"
| "submissions (Invoke i # evs) = i # submissions evs"
| "submissions (ev # evs) = submissions evs"

fun reads_clock :: "event \<Rightarrow> bool" where
  "reads_clock (Start i) = True"
| "reads_clock (Finish i) = True"
| "reads_clock ev = False"

definition readings :: "event list \<Rightarrow> event list" where
  "readings schedule = filter reads_clock schedule"

text \<open>The events a task still has before it.\<close>

fun remaining :: "phase \<Rightarrow> nat" where
  "remaining Pending = 3"
| "remaining (Started t) = 2"
| "remaining (Invoked t out) = 1"
| "remaining (Done m) = 0"

definition to_do :: "nat \<Rightarrow> pool \<Rightarrow> nat" where
  "to_do number_of_runs p =
     4 * (number_of_runs - length (tasks p)) + sum_list (map (remaining \<circ> snd) (tasks p))"

text \<open>
  What a task holds, told by the schedule that led to it: \<open>sub\<close> are the submissions and
  \<open>rd\<close> the clock readings of the schedule, \<open>w\<close> is the world the map started in. A
  clock value held is that of the task's own \<open>Start\<close>, an outcome held is that of the
  task's own submission, and a record is made of these and of the reading of the task's
  own \<open>Finish\<close>.
\<close>

fun task_inv :: "world \<Rightarrow> nat list \<Rightarrow> event list \<Rightarrow> nat \<Rightarrow> json \<times> phase \<Rightarrow> bool" where
  "task_inv w sub rd i (data, Pending) \<longleftrightarrow> i \<notin> set sub"
| "task_inv w sub rd i (data, Started t) \<longleftrightarrow>
     i \<notin> set sub \<and> (\<exists>a<length rd. rd ! a = Start i \<and> t = clock w (ticks w + a))"
| "task_inv w sub rd i (data, Invoked t out) \<longleftrightarrow>
     (\<exists>a<length rd. rd ! a = Start i \<and> t = clock w (ticks w + a))
     \<and> (\<exists>k<length sub. sub ! k = i \<and> out = endpoint w (length (sent w) + k) data)"
| "task_inv w sub rd i (data, Done m) \<longleftrightarrow>
     (\<exists>a b k. a < b \<and> b < length rd \<and> rd ! a = Start i \<and> rd ! b = Finish i
        \<and> k < length sub \<and> sub ! k = i
        \<and> latency m = clock w (ticks w + b) - clock w (ticks w + a)
        \<and> error m = isl (endpoint w (length (sent w) + k) data)
        \<and> result m =
            (case endpoint w (length (sent w) + k) data of Inl e \<Rightarrow> JArr [] | Inr v \<Rightarrow> v))"

definition pool_inv :: "string list \<Rightarrow> nat \<Rightarrow> world \<Rightarrow> event list \<Rightarrow> pool \<Rightarrow> bool" where
  "pool_inv uniref number_of_runs w schedule p \<longleftrightarrow>
       clock (env p) = clock w \<and> rnd (env p) = rnd w \<and> endpoint (env p) = endpoint w
     \<and> ticks (env p) = ticks w + length (readings schedule)
     \<and> sent (env p) = sent w @ map (\<lambda>i. fst (tasks p ! i)) (submissions schedule)
     \<and> distinct (submissions schedule)
     \<and> (\<forall>i \<in> set (submissions schedule). i < length (tasks p))
     \<and> length (tasks p) \<le> number_of_runs
     \<and> (raised p = None \<longrightarrow> draws (env p) = draws w + 2 * length (tasks p))
     \<and> (\<forall>i<length (tasks p).
           (\<exists>s. generated uniref w i = Inr s \<and> fst (tasks p ! i) = JObj [(''inputs'', JStr s)])
         \<and> task_inv w (submissions schedule) (readings schedule) i (tasks p ! i))"

section \<open>Properties of the inference handlers\<close>

lemmas py_defs = py_bind_def py_return_def py_raise_def py_try_def

lemma map_of_filter_key:
  "map_of (filter (\<lambda>kv. fst kv \<noteq> key) kvs) k = (if k = key then None else map_of kvs k)"
  by (induction kvs) auto

lemma input_fn_inputs:
  "loads body = Inr (JObj [(''inputs'', JStr s)]) \<Longrightarrow>
   input_fn loads body JSON_CONTENT_TYPE = Inr (JStr s)"
  by (simp add: input_fn_def)

lemma input_fn_content_type:
  "content_type \<noteq> JSON_CONTENT_TYPE \<Longrightarrow>
   input_fn loads body content_type =
     Inl (Exception (''Requested unsupported ContentType in Accept: '' @ content_type))"
  by (simp add: input_fn_def)

text \<open>
  Claim C3, the JSON contract of the handlers: \<open>input_fn\<close> extracts the sequence of a
  request \<^verbatim>\<open>{"inputs": s}\<close> (lemma \<open>input_fn_inputs\<close>), and \<open>predict_fn\<close> should then
  return a probability for every token of the vocabulary. It does not. Whatever the
  input, the tokenizer and the model handed to it: once the input is tokenized,
  \<open>predict_fn\<close> raises NameError, because it calls \<^verbatim>\<open>neuron_model\<close>, a name that
  \<^verbatim>\<open>inference.py\<close> binds only inside \<^verbatim>\<open>model_fn\<close>, and not the \<open>model_bert\<close> it
  unpacked. No mapping is returned for any request.
\<close>

theorem predict_fn_name_error:
  "predict_fn inference_py_globals sigmoid round3 input_data (model_bert, tokenizer) =
     (case encode_plus tokenizer input_data 128 of
        Inl e \<Rightarrow> Inl e
      | Inr tokenized_sequence \<Rightarrow> Inl (NameError ''neuron_model''))"
  by (simp add: predict_fn_def call_global_def inference_py_globals_def split: sum.splits)

text \<open>
  Claim C9 as it is worded also covers a parsed value that is no object at all, and says
  that \<open>input_fn\<close> returns it. For the JSON array \<^verbatim>\<open>[]\<close> it raises TypeError instead:
  the \<^verbatim>\<open>pop\<close> of a list takes no default.
\<close>

theorem input_fn_array_raises:
  "loads_literal ''[]'' = Inr (JArr [])
   \<and> input_fn loads_literal ''[]'' JSON_CONTENT_TYPE = Inl TypeError"
  by (simp add: loads_literal_def input_fn_def)

text \<open>
  Claim C9, amended to what \<^verbatim>\<open>pop\<close> does on each kind of parsed value. For JSON
  content that parses to an object without the key \<^verbatim>\<open>inputs\<close>, \<open>input_fn\<close> does not raise
  and returns the whole object, which \<^verbatim>\<open>pop\<close> leaves as it was. For an object with the
  key it returns the value of the key, and \<^verbatim>\<open>pop\<close> removes that entry and no other. For
  a parsed value that is not an object it raises: TypeError for an array, AttributeError
  for a string, a number, a boolean or null.
\<close>

theorem input_fn_pop:
  assumes "loads serialized_input_data = Inr parsed"
  shows "(\<forall>kvs. parsed = JObj kvs \<and> map_of kvs ''inputs'' = None \<longrightarrow>
            input_fn loads serialized_input_data JSON_CONTENT_TYPE = Inr parsed
            \<and> py_pop parsed ''inputs'' parsed = Inr (parsed, parsed))
       \<and> (\<forall>kvs v. parsed = JObj kvs \<and> map_of kvs ''inputs'' = Some v \<longrightarrow>
            input_fn loads serialized_input_data JSON_CONTENT_TYPE = Inr v
            \<and> (\<exists>kvs'. py_pop parsed ''inputs'' parsed = Inr (v, JObj kvs')
                  \<and> map_of kvs' ''inputs'' = None
                  \<and> (\<forall>k. k \<noteq> ''inputs'' \<longrightarrow> map_of kvs' k = map_of kvs k)))
       \<and> ((\<exists>xs. parsed = JArr xs) \<longrightarrow>
            input_fn loads serialized_input_data JSON_CONTENT_TYPE = Inl TypeError)
       \<and> ((\<forall>kvs. parsed \<noteq> JObj kvs) \<and> (\<forall>xs. parsed \<noteq> JArr xs) \<longrightarrow>
            input_fn loads serialized_input_data JSON_CONTENT_TYPE = Inl AttributeError)"
proof (intro conjI allI impI)
  fix kvs assume "parsed = JObj kvs \<and> map_of kvs ''inputs'' = None"
  with assms show "input_fn loads serialized_input_data JSON_CONTENT_TYPE = Inr parsed"
    and "py_pop parsed ''inputs'' parsed = Inr (parsed, parsed)"
    by (simp_all add: input_fn_def)
next
  fix kvs v assume h: "parsed = JObj kvs \<and> map_of kvs ''inputs'' = Some v"
  with assms show "input_fn loads serialized_input_data JSON_CONTENT_TYPE = Inr v"
    by (simp add: input_fn_def)
  from h have "py_pop parsed ''inputs'' parsed =
      Inr (v, JObj (filter (\<lambda>kv. fst kv \<noteq> ''inputs'') kvs))"
    by simp
  then show "\<exists>kvs'. py_pop parsed ''inputs'' parsed = Inr (v, JObj kvs')
                  \<and> map_of kvs' ''inputs'' = None
                  \<and> (\<forall>k. k \<noteq> ''inputs'' \<longrightarrow> map_of kvs' k = map_of kvs k)"
    by (simp add: map_of_filter_key)
next
  assume "\<exists>xs. parsed = JArr xs"
  with assms show "input_fn loads serialized_input_data JSON_CONTENT_TYPE = Inl TypeError"
    by (auto simp add: input_fn_def)
next
  assume "(\<forall>kvs. parsed \<noteq> JObj kvs) \<and> (\<forall>xs. parsed \<noteq> JArr xs)"
  with assms show "input_fn loads serialized_input_data JSON_CONTENT_TYPE = Inl AttributeError"
    by (cases parsed) (simp_all add: input_fn_def)
qed

theorem input_fn_pop_witness:
  \<open>input_fn loads_literal ''{}'' JSON_CONTENT_TYPE = Inr (JObj [])
   \<and> input_fn loads_literal ''{"inputs": "MK<mask>"}'' JSON_CONTENT_TYPE = Inr (JStr ''MK<mask>'')
   \<and> py_pop (JObj [(''inputs'', JStr ''MK<mask>'')]) ''inputs'' (JObj [(''inputs'', JStr ''MK<mask>'')])
       = Inr (JStr ''MK<mask>'', JObj [])
   \<and> input_fn loads_literal ''[]'' JSON_CONTENT_TYPE = Inl TypeError\<close>
proof -
  have a: \<open>loads_literal ''{}'' = Inr (JObj [])\<close>
    and b: \<open>loads_literal ''{"inputs": "MK<mask>"}'' = Inr (JObj [(''inputs'', JStr ''MK<mask>'')])\<close>
    and c: \<open>loads_literal ''[]'' = Inr (JArr [])\<close>
    by (simp_all add: loads_literal_def)
  from a b c
    input_fn_pop [of loads_literal "''{}''" "JObj []"]
    input_fn_pop [of loads_literal _ "JObj [(''inputs'', JStr ''MK<mask>'')]", OF b]
    input_fn_pop [of loads_literal "''[]''" "JArr []"]
  show ?thesis by simp
qed

section \<open>Properties of the cleanup cells\<close>

text \<open>
  Claim C7: endpoint cleanup never propagates an error. Whatever the deletion calls do,
  return or raise any exception, the cleanup cell of the deployment notebook and the one
  of the fine-tuning notebook both complete without raising.
\<close>

theorem cleanup_never_raises:
  "fst (cleanup_deploy fails inf2_predictor g5_predictor h) = Inr ()
   \<and> fst (cleanup_finetune fails predictor h) = Inr ()"
  by (simp add: cleanup_deploy_def cleanup_finetune_def delete_endpoint_def py_defs
      split: option.splits)

text \<open>
  Claim C8: in the cleanup cell of the deployment notebook both deletions share one
  \<^verbatim>\<open>try\<close> block. If deleting the first (inf2) endpoint raises, the deletion of the
  second (g5) endpoint is never asked for, and the hosting service is left as it was but
  for the one request. The deletion of the second endpoint is asked for when the first
  deletion succeeds, and then both endpoints are gone if the second succeeds too.
\<close>

theorem cleanup_deploy_one_try:
  "(fails inf2_predictor = Some e \<longrightarrow>
      cleanup_deploy fails inf2_predictor g5_predictor h =
        (Inr (), h\<lparr>requested := requested h @ [inf2_predictor]\<rparr>))
   \<and> (fails inf2_predictor = None \<longrightarrow>
      requested (snd (cleanup_deploy fails inf2_predictor g5_predictor h)) =
        requested h @ [inf2_predictor, g5_predictor])
   \<and> (fails inf2_predictor = None \<and> fails g5_predictor = None \<longrightarrow>
      live (snd (cleanup_deploy fails inf2_predictor g5_predictor h)) =
        removeAll g5_predictor (removeAll inf2_predictor (live h)))"
  by (simp add: cleanup_deploy_def delete_endpoint_def py_defs split: option.splits)

theorem cleanup_deploy_one_try_witness:
  "cleanup_deploy inf2_denied ''esm-inf2'' ''esm-g5'' two_endpoints =
     (Inr (), \<lparr>live = [''esm-inf2'', ''esm-g5''], requested = [''esm-inf2'']\<rparr>)
   \<and> requested (snd (cleanup_deploy none_denied ''esm-inf2'' ''esm-g5'' two_endpoints)) =
     [''esm-inf2'', ''esm-g5'']
   \<and> live (snd (cleanup_deploy none_denied ''esm-inf2'' ''esm-g5'' two_endpoints)) = []"
  using cleanup_deploy_one_try
      [of inf2_denied "''esm-inf2''" "Raised ''ClientError''" "''esm-g5''" two_endpoints]
    cleanup_deploy_one_try
      [of none_denied "''esm-inf2''" "Raised ''ClientError''" "''esm-g5''" two_endpoints]
  by (simp add: inf2_denied_def none_denied_def two_endpoints_def)

section \<open>Properties of the benchmark\<close>

lemma np_quantile_returns:
  "a \<noteq> [] \<Longrightarrow> 0 \<le> q \<Longrightarrow> q \<le> 1 \<Longrightarrow> \<exists>v. np_quantile a q = Inr v"
  by (simp add: np_quantile_def Let_def)

lemma benchmark_statistics_no_runs: "benchmark_statistics [] = Inl ZeroDivisionError"
  by (simp add: benchmark_statistics_def)

lemma benchmark_statistics_quantiles:
  assumes "results \<noteq> []"
  shows "\<exists>q50 q95 q99.
      np_quantile (last_10000 (map latency results)) (50 / 100) = Inr q50
    \<and> np_quantile (last_10000 (map latency results)) (95 / 100) = Inr q95
    \<and> np_quantile (last_10000 (map latency results)) (99 / 100) = Inr q99
    \<and> (\<exists>e. benchmark_statistics results =
          Inr \<lparr>error_p = e, p50 = q50 * 1000, p90 = q95 * 1000, p95 = q99 * 1000\<rparr>)"
proof -
  from assms have "0 < length results" by simp
  then have "\<not> length results \<le> length results - 10000" by arith
  then have ne: "last_10000 (map latency results) \<noteq> []"
    by (simp add: last_10000_def)
  obtain q50 where a: "np_quantile (last_10000 (map latency results)) (50 / 100) = Inr q50"
    using np_quantile_returns [OF ne, of "50 / 100"] by auto
  obtain q95 where b: "np_quantile (last_10000 (map latency results)) (95 / 100) = Inr q95"
    using np_quantile_returns [OF ne, of "95 / 100"] by auto
  obtain q99 where c: "np_quantile (last_10000 (map latency results)) (99 / 100) = Inr q99"
    using np_quantile_returns [OF ne, of "99 / 100"] by auto
  from assms a b c show ?thesis
    by (simp add: benchmark_statistics_def)
qed

text \<open>
  Claim C1, the percentiles of the benchmark: the figures printed as the 50th, 90th and
  95th percentile latency should be the 0.50, 0.90 and 0.95 quantiles of the latencies,
  in milliseconds. The code passes 0.50, 0.95 and 0.99 to \<^verbatim>\<open>np.quantile\<close>. For a run of
  two requests, of 0 and of 1 second, it prints 500, 950 and 990 milliseconds, where the
  quantiles the labels name are 500, 900 and 950 milliseconds.
\<close>

theorem benchmark_percentile_labels:
  "benchmark_statistics two_requests = Inr \<lparr>error_p = 50, p50 = 500, p90 = 950, p95 = 990\<rparr>
   \<and> np_quantile (map latency two_requests) (50 / 100) = Inr (500 / 1000)
   \<and> np_quantile (map latency two_requests) (90 / 100) = Inr (900 / 1000)
   \<and> np_quantile (map latency two_requests) (95 / 100) = Inr (950 / 1000)"
  by (simp add: benchmark_statistics_def two_requests_def np_quantile_def last_10000_def
      Let_def floor_eq_iff)

subsection \<open>One measured request\<close>

lemma inference_latency_predict:
  "inference_latency predictor_predict data w =
     (Inr \<lparr>latency = clock w (Suc (ticks w)) - clock w (ticks w),
           error = isl (endpoint w (length (sent w)) data),
           result = (case endpoint w (length (sent w)) data of Inl e \<Rightarrow> JArr [] | Inr r \<Rightarrow> r)\<rparr>,
      w\<lparr>ticks := Suc (Suc (ticks w)), sent := sent w @ [data]\<rparr>)"
  by (cases "endpoint w (length (sent w)) data")
     (simp_all add: inference_latency_def py_defs time_time_def predictor_predict_def)

text \<open>
  Claim C2 says that the latency \<open>inference_latency\<close> returns is never negative. The
  latency is the difference of two readings of \<^verbatim>\<open>time.time()\<close>, the wall clock, which
  can be set back between them: with the readings 10 and 9 around a call that succeeds,
  the latency returned is -1.
\<close>

theorem inference_latency_clock_set_back:
  "fst (inference_latency predictor_predict (JObj [(''inputs'', JStr ''MK<mask>'')])
         (world_of [10, 9] [] [Inr (JObj [])]))
     = Inr \<lparr>latency = - 1, error = False, result = JObj []\<rparr>"
  by (simp add: inference_latency_def py_defs time_time_def predictor_predict_def world_of_def)

text \<open>
  Claim C2, amended in its last sentence. For every model callable and input,
  \<open>inference_latency\<close> never propagates an exception: it returns a record. If the call
  raises, the record has \<open>error\<close> set and the empty list as result; if the call
  returns, \<open>error\<close> is not set and the result is what the call returned. In both cases
  the latency is the clock reading after the call minus the reading before it, which is
  not negative whenever the clock did not go back between the two readings.
\<close>

theorem inference_latency_returns:
  "\<exists>m w'. inference_latency model inputs w = (Inr m, w')
      \<and> (\<forall>e. fst (model inputs (w\<lparr>ticks := Suc (ticks w)\<rparr>)) = Inl e \<longrightarrow>
             error m \<and> result m = JArr [])
      \<and> (\<forall>r. fst (model inputs (w\<lparr>ticks := Suc (ticks w)\<rparr>)) = Inr r \<longrightarrow>
             \<not> error m \<and> result m = r)
      \<and> (\<exists>start finish.
             start = clock w (ticks w)
           \<and> finish = clock (snd (model inputs (w\<lparr>ticks := Suc (ticks w)\<rparr>)))
                        (ticks (snd (model inputs (w\<lparr>ticks := Suc (ticks w)\<rparr>))))
           \<and> latency m = finish - start
           \<and> (start \<le> finish \<longrightarrow> 0 \<le> latency m))"
proof (cases "model inputs (w\<lparr>ticks := Suc (ticks w)\<rparr>)")
  case (Pair r w2)
  then show ?thesis
    by (cases r) (simp_all add: inference_latency_def py_defs time_time_def)
qed

theorem inference_latency_returns_witness:
  "fst (inference_latency predictor_predict (JObj [(''inputs'', JStr ''MK<mask>'')])
         (world_of [3, 5] [] [Inl (Raised ''ModelError'')]))
     = Inr \<lparr>latency = 2, error = True, result = JArr []\<rparr>
   \<and> fst (inference_latency predictor_predict (JObj [(''inputs'', JStr ''MK<mask>'')])
         (world_of [3, 5] [] [Inr (JObj [(''A'', JNum 1)])]))
     = Inr \<lparr>latency = 2, error = False, result = JObj [(''A'', JNum 1)]\<rparr>"
  using inference_latency_returns [of predictor_predict "JObj [(''inputs'', JStr ''MK<mask>'')]"
      "world_of [3, 5] [] [Inl (Raised ''ModelError'')]"]
    inference_latency_returns [of predictor_predict "JObj [(''inputs'', JStr ''MK<mask>'')]"
      "world_of [3, 5] [] [Inr (JObj [(''A'', JNum 1)])]"]
  by (auto simp add: predictor_predict_def world_of_def)

subsection \<open>The masked sequence\<close>

lemma concat_singletons: "concat (map (\<lambda>c. [c]) xs) = xs"
  by (induction xs) simp_all

lemma concat_update_singletons:
  assumes "i < length t"
  shows "concat ((map (\<lambda>c. [c]) t)[i := m]) = take i t @ m @ drop (Suc i) t"
proof -
  have "(map (\<lambda>c. [c]) t)[i := m] =
      map (\<lambda>c. [c]) (take i t) @ m # map (\<lambda>c. [c]) (drop (Suc i) t)"
    using assms by (simp add: upd_conv_take_nth_drop take_map drop_map)
  then show ?thesis by (simp add: concat_singletons)
qed

lemma random_sequence_chosen:
  assumes "random_choice uniref w = (Inr seq0, w1)"
  shows "random_sequence uniref max_length w =
     (if slice_to seq0 max_length = [] then (Inl ValueError, w1)
      else (Inr (take (rnd w1 (draws w1) mod length (slice_to seq0 max_length)) (slice_to seq0 max_length)
                 @ ''<mask>''
                 @ drop (Suc (rnd w1 (draws w1) mod length (slice_to seq0 max_length))) (slice_to seq0 max_length)),
            w1\<lparr>draws := Suc (draws w1)\<rparr>))"
proof (cases "slice_to seq0 max_length = []")
  case True
  with assms show ?thesis
    by (simp add: random_sequence_def py_defs random_randint_def Let_def)
next
  case False
  define t where "t = slice_to seq0 max_length"
  define i where "i = rnd w1 (draws w1) mod length t"
  from False have len: "0 < length t" by (simp add: t_def)
  then have i: "i < length t" by (simp add: i_def)
  have draw: "random_randint 0 (int (length (map (\<lambda>c. [c]) t)) - 1) w1 =
      (Inr (int i), w1\<lparr>draws := Suc (draws w1)\<rparr>)"
    using len by (simp add: random_randint_def i_def nat_diff_distrib')
  have upd: "setitem (map (\<lambda>c. [c]) t) (int i) ''<mask>'' = Inr ((map (\<lambda>c. [c]) t)[i := ''<mask>''])"
    using i by (simp add: setitem_def)
  show ?thesis
    using assms False draw upd concat_update_singletons [OF i, of "''<mask>''"]
    unfolding t_def [symmetric] i_def [symmetric]
    by (simp add: random_sequence_def py_defs Let_def t_def [symmetric])
qed

lemma occurs_iff:
  assumes "i \<le> length xs"
  shows "take (length w) (drop i xs) = w \<longleftrightarrow>
     i + length w \<le> length xs \<and> (\<forall>j<length w. xs ! (i + j) = w ! j)"
proof
  assume a: "take (length w) (drop i xs) = w"
  then have "length (take (length w) (drop i xs)) = length w" by simp
  then have len: "i + length w \<le> length xs" using assms by (simp add: min_def split: if_splits)
  have "\<forall>j<length w. xs ! (i + j) = w ! j"
  proof (intro allI impI)
    fix j assume j: "j < length w"
    have "take (length w) (drop i xs) ! j = w ! j" using a by simp
    with j len show "xs ! (i + j) = w ! j" by simp
  qed
  with len show "i + length w \<le> length xs \<and> (\<forall>j<length w. xs ! (i + j) = w ! j)" by simp
next
  assume "i + length w \<le> length xs \<and> (\<forall>j<length w. xs ! (i + j) = w ! j)"
  then show "take (length w) (drop i xs) = w"
    by (auto simp add: list_eq_iff_nth_eq)
qed

lemma filter_upt_single:
  assumes "k < N" and "P k" and "\<And>i. i < N \<Longrightarrow> P i \<Longrightarrow> i = k"
  shows "filter P [0..<N] = [k]"
proof -
  have split: "[0..<N] = [0..<k] @ k # [Suc k..<N]"
    using assms(1) by (metis le_add2 le_add_same_cancel2 less_imp_add_positive upt_add_eq_append upt_conv_Cons)
  have "\<And>x. x < k \<Longrightarrow> \<not> P x" using assms(1,3) by (metis less_trans less_irrefl)
  then have "filter P [0..<k] = []" by (auto simp add: filter_empty_conv)
  moreover have "filter P [Suc k..<N] = []" using assms(3) by (auto simp add: filter_empty_conv)
  ultimately show ?thesis using assms(2) by (simp add: split)
qed

lemma occurrences_replaced:
  assumes first: "w \<noteq> []" "\<forall>j. 0 < j \<and> j < length w \<longrightarrow> w ! j \<noteq> w ! 0"
    and none: "occurrences w (pre @ c # post) = []"
  shows "occurrences w (pre @ w @ post) = [length pre]"
  unfolding occurrences_def
proof (rule filter_upt_single)
  show "length pre < Suc (length (pre @ w @ post))" by simp
  show "take (length w) (drop (length pre) (pre @ w @ post)) = w" by simp
next
  fix i assume i: "i < Suc (length (pre @ w @ post))"
    and "take (length w) (drop i (pre @ w @ post)) = w"
  then have "i + length w \<le> length (pre @ w @ post)
      \<and> (\<forall>j<length w. (pre @ w @ post) ! (i + j) = w ! j)"
    by (subst (asm) occurs_iff) simp_all
  then have len: "i + length w \<le> length pre + length w + length post"
    and at: "\<And>j. j < length w \<Longrightarrow> (pre @ w @ post) ! (i + j) = w ! j"
    by simp_all
  have no: "\<And>k. k + length w \<le> length (pre @ c # post) \<Longrightarrow>
      \<exists>j<length w. (pre @ c # post) ! (k + j) \<noteq> w ! j"
  proof -
    fix k assume k: "k + length w \<le> length (pre @ c # post)"
    then have "k < Suc (length (pre @ c # post))" by linarith
    then have "k \<in> set [0..<Suc (length (pre @ c # post))]"
      unfolding set_upt atLeastLessThan_iff by blast
    with none have "take (length w) (drop k (pre @ c # post)) \<noteq> w"
      unfolding occurrences_def filter_empty_conv by blast
    moreover have "k \<le> length (pre @ c # post)" using k by simp
    ultimately show "\<exists>j<length w. (pre @ c # post) ! (k + j) \<noteq> w ! j"
      using k by (subst (asm) occurs_iff) auto
  qed
  have L: "0 < length w" using first(1) by simp
  show "i = length pre"
  proof (rule ccontr)
    assume ne: "i \<noteq> length pre"
    consider (a) "i + length w \<le> length pre"
      | (b) "i < length pre" "length pre < i + length w"
      | (c) "length pre < i" "i < length pre + length w"
      | (d) "length pre + length w \<le> i"
      using ne by linarith
    then show False
    proof cases
      case a
      then have "i + length w \<le> length (pre @ c # post)" by simp
      from no [OF this] obtain j where j: "j < length w" "(pre @ c # post) ! (i + j) \<noteq> w ! j"
        by blast
      with a at [OF j(1)] show False by (simp add: nth_append)
    next
      case b
      define k where "k = length pre - i"
      from b have k: "0 < k" "k < length w" "i + k = length pre" by (simp_all add: k_def)
      from at [OF k(2)] k(3) L have "w ! 0 = w ! k" by (simp add: nth_append)
      with first(2) k show False by auto
    next
      case c
      define d where "d = i - length pre"
      from c have d: "0 < d" "d < length w" "i = length pre + d" by (simp_all add: d_def)
      from at [OF L] d have "w ! d = w ! 0" by (simp add: nth_append)
      with first(2) d show False by auto
    next
      case d
      define k where "k = i + 1 - length w"
      from d L have k: "k + length w = i + 1" "length pre < k" by (simp_all add: k_def)
      from len k have "k + length w \<le> length (pre @ c # post)" by simp
      from no [OF this] obtain j where j: "j < length w" "(pre @ c # post) ! (k + j) \<noteq> w ! j"
        by blast
      have "((pre @ [c]) @ post) ! (k + j) = post ! (k + j - length (pre @ [c]))"
        using k(2) by (subst nth_append) simp
      then have "(pre @ c # post) ! (k + j) = post ! (k + j - length pre - 1)"
        by simp
      moreover have "((pre @ w) @ post) ! (i + j) = post ! (i + j - length (pre @ w))"
        using d by (subst nth_append) simp
      then have "(pre @ w @ post) ! (i + j) = post ! (i + j - length pre - length w)"
        by simp
      moreover have "k + j - length pre - 1 = i + j - length pre - length w"
        using k d by simp
      ultimately show False using at [OF j(1)] j(2) by simp
    qed
  qed
qed

lemma mask_first_char: "\<forall>j. 0 < j \<and> j < length ''<mask>'' \<longrightarrow> ''<mask>'' ! j \<noteq> ''<mask>'' ! 0"
  by (auto simp add: nth_Cons split: nat.splits)

lemma occurrences_contains:
  "length pre \<in> set (occurrences w (pre @ w @ post))"
  by (simp add: occurrences_def)

lemma slice_to_nonempty: "xs \<noteq> [] \<Longrightarrow> 1 \<le> m \<Longrightarrow> slice_to xs m \<noteq> []"
  by (simp add: slice_to_def)

text \<open>
  Claim C10 says that the string \<open>random_sequence\<close> returns contains \<^verbatim>\<open><mask>\<close> exactly
  once. A source sequence that holds the word already keeps it: from \<^verbatim>\<open><mask>A\<close>, with
  the last character replaced, the result holds it twice.
\<close>

theorem random_sequence_two_masks:
  "fst (random_sequence [''<mask>A''] 128 (world_of [] [0, 6] [])) = Inr ''<mask><mask>''
   \<and> occurrences ''<mask>'' ''<mask><mask>'' = [0, 6]"
  by (simp add: random_sequence_def py_defs random_choice_def random_randint_def
      world_of_def slice_to_def setitem_def occurrences_def Let_def upt_rec)

text \<open>
  Claim C10, amended. When the sequence chosen is not empty and \<open>max_length\<close> is at
  least 1, \<open>random_sequence\<close> returns the sequence cut to its first \<open>max_length\<close>
  characters with exactly one character replaced by \<^verbatim>\<open><mask>\<close>: the result has the
  length of the cut sequence minus 1 plus 6 and holds \<^verbatim>\<open><mask>\<close> at the replaced
  position, and nowhere else when the cut sequence does not hold that word itself. When
  the sequence chosen is empty, \<open>random_sequence\<close> fails with ValueError: the index is
  drawn from an empty range.
\<close>

theorem random_sequence_masks_one:
  assumes "random_choice uniref w = (Inr seq0, w1)"
  shows "(seq0 = [] \<longrightarrow> fst (random_sequence uniref max_length w) = Inl ValueError)
    \<and> (seq0 \<noteq> [] \<and> 1 \<le> max_length \<longrightarrow>
         (\<exists>pre c post w'.
            slice_to seq0 max_length = pre @ c # post
          \<and> slice_to seq0 max_length = take (nat max_length) seq0
          \<and> random_sequence uniref max_length w = (Inr (pre @ ''<mask>'' @ post), w')
          \<and> length (pre @ ''<mask>'' @ post) = (length (slice_to seq0 max_length) - 1) + 6
          \<and> length pre \<in> set (occurrences ''<mask>'' (pre @ ''<mask>'' @ post))
          \<and> (occurrences ''<mask>'' (slice_to seq0 max_length) = [] \<longrightarrow>
               occurrences ''<mask>'' (pre @ ''<mask>'' @ post) = [length pre])))"
proof (intro conjI impI)
  assume "seq0 = []"
  then show "fst (random_sequence uniref max_length w) = Inl ValueError"
    by (simp add: random_sequence_chosen [OF assms] slice_to_def)
next
  assume h: "seq0 \<noteq> [] \<and> 1 \<le> max_length"
  define t where "t = slice_to seq0 max_length"
  define i where "i = rnd w1 (draws w1) mod length t"
  from h have t: "t \<noteq> []" by (simp add: t_def slice_to_nonempty)
  then have i: "i < length t" by (simp add: i_def)
  have run: "random_sequence uniref max_length w =
      (Inr (take i t @ ''<mask>'' @ drop (Suc i) t), w1\<lparr>draws := Suc (draws w1)\<rparr>)"
    using t by (simp add: random_sequence_chosen [OF assms] t_def i_def)
  have parts: "t = take i t @ t ! i # drop (Suc i) t"
    using i by (simp add: id_take_nth_drop [symmetric])
  have len: "length (take i t @ ''<mask>'' @ drop (Suc i) t) = (length t - 1) + 6"
    using i by simp
  have one: "occurrences ''<mask>'' t = [] \<longrightarrow>
      occurrences ''<mask>'' (take i t @ ''<mask>'' @ drop (Suc i) t) = [length (take i t)]"
  proof
    assume "occurrences ''<mask>'' t = []"
    with parts have "occurrences ''<mask>'' (take i t @ t ! i # drop (Suc i) t) = []" by simp
    then show "occurrences ''<mask>'' (take i t @ ''<mask>'' @ drop (Suc i) t) = [length (take i t)]"
      using occurrences_replaced [OF _ mask_first_char, of "take i t" "t ! i" "drop (Suc i) t"]
      by simp
  qed
  have cut: "t = take (nat max_length) seq0" using h by (simp add: t_def slice_to_def)
  show "\<exists>pre c post w'.
            slice_to seq0 max_length = pre @ c # post
          \<and> slice_to seq0 max_length = take (nat max_length) seq0
          \<and> random_sequence uniref max_length w = (Inr (pre @ ''<mask>'' @ post), w')
          \<and> length (pre @ ''<mask>'' @ post) = (length (slice_to seq0 max_length) - 1) + 6
          \<and> length pre \<in> set (occurrences ''<mask>'' (pre @ ''<mask>'' @ post))
          \<and> (occurrences ''<mask>'' (slice_to seq0 max_length) = [] \<longrightarrow>
               occurrences ''<mask>'' (pre @ ''<mask>'' @ post) = [length pre])"
    unfolding t_def [symmetric]
    using parts cut run len one occurrences_contains [of "take i t" "''<mask>''" "drop (Suc i) t"]
    by blast
qed

theorem random_sequence_masks_one_witness:
  "fst (random_sequence [''MKV'', []] 128 (world_of [] [0, 4] [])) = Inr ''M<mask>V''
   \<and> fst (random_sequence [''MKV'', []] 128 (world_of [] [1, 4] [])) = Inl ValueError"
proof -
  have a: "random_choice [''MKV'', []] (world_of [] [0, 4] []) =
      (Inr ''MKV'', (world_of [] [0, 4] [])\<lparr>draws := 1\<rparr>)"
    and b: "random_choice [''MKV'', []] (world_of [] [1, 4] []) =
      (Inr [], (world_of [] [1, 4] [])\<lparr>draws := 1\<rparr>)"
    by (simp_all add: random_choice_def world_of_def)
  have c: "fst (random_sequence [''MKV'', []] 128 (world_of [] [0, 4] [])) = Inr ''M<mask>V''"
    by (simp add: random_sequence_def py_defs random_choice_def random_randint_def
      world_of_def slice_to_def setitem_def Let_def)
  from random_sequence_masks_one [OF a, of 128] random_sequence_masks_one [OF b, of 128] c
  show ?thesis by simp
qed

lemma random_sequence_returns:
  assumes "uniref \<noteq> []" and "\<forall>s \<in> set uniref. s \<noteq> []" and "1 \<le> max_length"
  shows "\<exists>s. fst (random_sequence uniref max_length w) = Inr s"
proof -
  define seq0 where "seq0 = uniref ! (rnd w (draws w) mod length uniref)"
  have pick: "random_choice uniref w = (Inr seq0, w\<lparr>draws := Suc (draws w)\<rparr>)"
    using assms(1) by (simp add: random_choice_def seq0_def)
  have "seq0 \<in> set uniref" using assms(1) by (simp add: seq0_def)
  with assms(2) have "seq0 \<noteq> []" by blast
  then have "slice_to seq0 max_length \<noteq> []" using assms(3) by (rule slice_to_nonempty)
  then show ?thesis by (simp add: random_sequence_chosen [OF pick])
qed

subsection \<open>The parallel map\<close>

text \<open>
  The lemmas below follow a schedule of the parallel map event by event. \<open>pool_inv\<close>
  holds in every state a schedule reaches from the start, \<open>to_do\<close> falls by one with
  every event, and in a state with something left to do some event can happen.
\<close>

lemma random_sequence_frame:
  "\<exists>d. snd (random_sequence uniref max_length w) = w\<lparr>draws := d\<rparr>"
proof -
  have a: "w = w\<lparr>draws := draws w\<rparr>" by simp
  show ?thesis
    unfolding random_sequence_def py_defs random_choice_def random_randint_def Let_def
    by (auto split: sum.splits intro: a)
qed

lemma random_sequence_two_draws:
  assumes "fst (random_sequence uniref max_length w) = Inr s"
  shows "snd (random_sequence uniref max_length w) = w\<lparr>draws := draws w + 2\<rparr>"
proof (cases "uniref = []")
  case True
  with assms show ?thesis
    by (simp add: random_sequence_def py_defs random_choice_def)
next
  case False
  then have pick: "random_choice uniref w =
      (Inr (uniref ! (rnd w (draws w) mod length uniref)), w\<lparr>draws := Suc (draws w)\<rparr>)"
    by (simp add: random_choice_def)
  from assms show ?thesis
    unfolding random_sequence_chosen [OF pick]
    by (simp split: if_splits)
qed

lemma random_sequence_same_draws:
  assumes "rnd w1 = rnd w2" and "draws w1 = draws w2"
  shows "fst (random_sequence uniref max_length w1) = fst (random_sequence uniref max_length w2)"
proof (cases "uniref = []")
  case True
  then show ?thesis by (simp add: random_sequence_def py_defs random_choice_def)
next
  case False
  then have pick1: "random_choice uniref w1 =
      (Inr (uniref ! (rnd w1 (draws w1) mod length uniref)), w1\<lparr>draws := Suc (draws w1)\<rparr>)"
    and pick2: "random_choice uniref w2 =
      (Inr (uniref ! (rnd w2 (draws w2) mod length uniref)), w2\<lparr>draws := Suc (draws w2)\<rparr>)"
    by (simp_all add: random_choice_def)
  show ?thesis
    unfolding random_sequence_chosen [OF pick1] random_sequence_chosen [OF pick2]
    using assms by simp
qed

lemma pool_run_append:
  "pool_run uniref workers n (xs @ ys) p =
     (case pool_run uniref workers n xs p of
        None \<Rightarrow> None
      | Some p' \<Rightarrow> pool_run uniref workers n ys p')"
  by (induction xs arbitrary: p) (simp_all split: option.splits)

lemma pool_run_snoc:
  "pool_run uniref workers n (xs @ [ev]) p =
     (case pool_run uniref workers n xs p of
        None \<Rightarrow> None
      | Some p' \<Rightarrow> pool_step uniref workers n ev p')"
  by (simp add: pool_run_append split: option.splits)

lemma submissions_append: "submissions (xs @ ys) = submissions xs @ submissions ys"
  by (induction xs rule: submissions.induct) simp_all

lemma readings_append: "readings (xs @ ys) = readings xs @ readings ys"
  by (simp add: readings_def)

lemma task_inv_later:
  assumes "task_inv w sub rd i t" and "i \<notin> set sub'"
  shows "task_inv w (sub @ sub') (rd @ rd') i t"
proof (cases t)
  case (Pair data ph)
  show ?thesis
  proof (cases ph)
    case Pending
    with Pair assms show ?thesis by simp
  next
    case (Started t0)
    with Pair assms obtain a where "a < length rd" "rd ! a = Start i" "t0 = clock w (ticks w + a)"
      and "i \<notin> set sub" by auto
    then have "a < length (rd @ rd') \<and> (rd @ rd') ! a = Start i \<and> t0 = clock w (ticks w + a)"
      by (simp add: nth_append)
    with \<open>i \<notin> set sub\<close> assms(2) Pair Started show ?thesis by auto
  next
    case (Invoked t0 out)
    with Pair assms obtain a k where a: "a < length rd" "rd ! a = Start i" "t0 = clock w (ticks w + a)"
      and k: "k < length sub" "sub ! k = i" "out = endpoint w (length (sent w) + k) data"
      by auto
    from a have "a < length (rd @ rd') \<and> (rd @ rd') ! a = Start i \<and> t0 = clock w (ticks w + a)"
      by (simp add: nth_append)
    moreover from k have "k < length (sub @ sub') \<and> (sub @ sub') ! k = i
        \<and> out = endpoint w (length (sent w) + k) data"
      by (simp add: nth_append)
    ultimately show ?thesis using Pair Invoked by auto
  next
    case (Done m)
    with Pair assms obtain a b k where h: "a < b" "b < length rd" "rd ! a = Start i" "rd ! b = Finish i"
        "k < length sub" "sub ! k = i"
        "latency m = clock w (ticks w + b) - clock w (ticks w + a)"
        "error m = isl (endpoint w (length (sent w) + k) data)"
        "result m = (case endpoint w (length (sent w) + k) data of Inl e \<Rightarrow> JArr [] | Inr v \<Rightarrow> v)"
      by auto
    then have "a < b \<and> b < length (rd @ rd') \<and> (rd @ rd') ! a = Start i \<and> (rd @ rd') ! b = Finish i
        \<and> k < length (sub @ sub') \<and> (sub @ sub') ! k = i"
      by (simp add: nth_append)
    with h(7,8,9) Pair Done show ?thesis by auto
  qed
qed

lemma pool_inv_start: "pool_inv uniref n w [] (pool_start w)"
  by (simp add: pool_inv_def pool_start_def readings_def)

lemma pool_invD:
  assumes "pool_inv uniref n w sch p"
  shows "clock (env p) = clock w" and "rnd (env p) = rnd w" and "endpoint (env p) = endpoint w"
    and "ticks (env p) = ticks w + length (readings sch)"
    and "sent (env p) = sent w @ map (\<lambda>i. fst (tasks p ! i)) (submissions sch)"
    and "distinct (submissions sch)"
    and "\<forall>i \<in> set (submissions sch). i < length (tasks p)"
    and "length (tasks p) \<le> n"
    and "raised p = None \<longrightarrow> draws (env p) = draws w + 2 * length (tasks p)"
    and "\<forall>i<length (tasks p).
           (\<exists>s. generated uniref w i = Inr s \<and> fst (tasks p ! i) = JObj [(''inputs'', JStr s)])
         \<and> task_inv w (submissions sch) (readings sch) i (tasks p ! i)"
  using assms unfolding pool_inv_def by blast+

lemma submissions_snoc:
  "submissions (sch @ [Build]) = submissions sch"
  "submissions (sch @ [Start i]) = submissions sch"
  "submissions (sch @ [Invoke i]) = submissions sch @ [i]"
  "submissions (sch @ [Finish i]) = submissions sch"
  by (simp_all add: submissions_append)

lemma readings_snoc:
  "readings (sch @ [Build]) = readings sch"
  "readings (sch @ [Start i]) = readings sch @ [Start i]"
  "readings (sch @ [Invoke i]) = readings sch"
  "readings (sch @ [Finish i]) = readings sch @ [Finish i]"
  by (simp_all add: readings_def)

lemma pool_inv_update:
  assumes inv: "pool_inv uniref n w sch p"
    and i: "i < length (tasks p)"
    and sub: "submissions (sch @ [ev]) = submissions sch @ sub'" "set sub' \<subseteq> {i}"
      "distinct (submissions sch @ sub')"
    and rd: "readings (sch @ [ev]) = readings sch @ rd'"
    and w': "clock w' = clock w" "rnd w' = rnd w" "endpoint w' = endpoint w"
      "ticks w' = ticks w + length (readings sch @ rd')"
      "sent w' = sent w @ map (\<lambda>j. fst (tasks p ! j)) (submissions sch @ sub')"
      "draws w' = draws (env p)"
    and new: "task_inv w (submissions sch @ sub') (readings sch @ rd') i (fst (tasks p ! i), ph')"
  shows "pool_inv uniref n w (sch @ [ev])
           (p\<lparr>env := w', tasks := (tasks p)[i := (fst (tasks p ! i), ph')]\<rparr>)"
proof -
  let ?ts = "(tasks p)[i := (fst (tasks p ! i), ph')]"
  have fst_same: "\<And>j. fst (?ts ! j) = fst (tasks p ! j)"
    using i by (simp add: nth_list_update)
  have old: "\<forall>j<length (tasks p).
      (\<exists>s. generated uniref w j = Inr s \<and> fst (tasks p ! j) = JObj [(''inputs'', JStr s)])
      \<and> task_inv w (submissions sch) (readings sch) j (tasks p ! j)"
    and below: "\<forall>j \<in> set (submissions sch). j < length (tasks p)"
    using inv by (simp_all add: pool_inv_def)
  have each: "\<forall>j<length ?ts.
      (\<exists>s. generated uniref w j = Inr s \<and> fst (?ts ! j) = JObj [(''inputs'', JStr s)])
      \<and> task_inv w (submissions sch @ sub') (readings sch @ rd') j (?ts ! j)"
  proof (intro allI impI)
    fix j assume j: "j < length ?ts"
    then have j': "j < length (tasks p)" by simp
    have "task_inv w (submissions sch @ sub') (readings sch @ rd') j (?ts ! j)"
    proof (cases "j = i")
      case True
      with new i show ?thesis by simp
    next
      case False
      then have "j \<notin> set sub'" using sub(2) by auto
      moreover have "task_inv w (submissions sch) (readings sch) j (tasks p ! j)"
        using old j' by blast
      ultimately have "task_inv w (submissions sch @ sub') (readings sch @ rd') j (tasks p ! j)"
        by (rule task_inv_later [rotated])
      with False show ?thesis by simp
    qed
    with old j' fst_same show "(\<exists>s. generated uniref w j = Inr s
          \<and> fst (?ts ! j) = JObj [(''inputs'', JStr s)])
        \<and> task_inv w (submissions sch @ sub') (readings sch @ rd') j (?ts ! j)"
      by simp
  qed
  have "\<forall>j \<in> set (submissions sch @ sub'). j < length ?ts"
    using below sub(2) i by auto
  moreover have "length ?ts \<le> n" using inv by (simp add: pool_inv_def)
  moreover have "raised p = None \<longrightarrow> draws w' = draws w + 2 * length ?ts"
    using inv w'(6) by (simp add: pool_inv_def)
  moreover have "map (\<lambda>j. fst (?ts ! j)) (submissions sch @ sub') =
      map (\<lambda>j. fst (tasks p ! j)) (submissions sch @ sub')"
    using fst_same by simp
  ultimately show ?thesis
    unfolding pool_inv_def using each sub(1,3) rd w'(1-5)
    by simp
qed

lemma pool_inv_step:
  assumes inv: "pool_inv uniref n w sch p"
    and step: "pool_step uniref workers n ev p = Some p'"
  shows "pool_inv uniref n w (sch @ [ev]) p'"
proof (cases ev)
  case Build
  have subs: "submissions (sch @ [Build]) = submissions sch"
    and rds: "readings (sch @ [Build]) = readings sch"
    by (simp_all add: submissions_snoc readings_snoc)
  from step Build have guard: "raised p = None" "length (tasks p) < n"
    by (simp_all split: if_splits)
  from inv guard have draws: "draws (env p) = draws w + 2 * length (tasks p)"
    and rnd: "rnd (env p) = rnd w"
    by (simp_all add: pool_inv_def)
  obtain d where frame: "snd (random_sequence uniref 128 (env p)) = (env p)\<lparr>draws := d\<rparr>"
    using random_sequence_frame by blast
  show ?thesis
  proof (cases "fst (random_sequence uniref 128 (env p))")
    case (Inl e)
    with frame have "random_sequence uniref 128 (env p) = (Inl e, (env p)\<lparr>draws := d\<rparr>)"
      by (metis prod.collapse)
    with step Build guard have "p' = p\<lparr>env := (env p)\<lparr>draws := d\<rparr>, raised := Some e\<rparr>"
      by (simp split: if_splits)
    with inv show ?thesis
      unfolding Build pool_inv_def subs rds by simp
  next
    case (Inr s)
    from random_sequence_two_draws [OF Inr] Inr
    have run: "random_sequence uniref 128 (env p) = (Inr s, (env p)\<lparr>draws := draws (env p) + 2\<rparr>)"
      by (metis prod.collapse)
    with step Build guard
    have p': "p' = p\<lparr>env := (env p)\<lparr>draws := draws (env p) + 2\<rparr>,
        tasks := tasks p @ [(JObj [(''inputs'', JStr s)], Pending)]\<rparr>"
      by (simp split: if_splits)
    have "rnd (w\<lparr>draws := draws w + 2 * length (tasks p)\<rparr>) = rnd (env p)"
      and "draws (w\<lparr>draws := draws w + 2 * length (tasks p)\<rparr>) = draws (env p)"
      using rnd draws by simp_all
    then have "generated uniref w (length (tasks p)) = fst (random_sequence uniref 128 (env p))"
      unfolding generated_def by (rule random_sequence_same_draws)
    with Inr have gen: "generated uniref w (length (tasks p)) = Inr s" by simp
    have below: "\<forall>j \<in> set (submissions sch). j < length (tasks p)"
      using inv by (simp add: pool_inv_def)
    then have fresh: "length (tasks p) \<notin> set (submissions sch)" by auto
    have same: "map (\<lambda>j. fst ((tasks p @ [(JObj [(''inputs'', JStr s)], Pending)]) ! j))
          (submissions sch) = map (\<lambda>j. fst (tasks p ! j)) (submissions sch)"
      using below by (simp add: nth_append)
    have each: "\<forall>j<length (tasks p @ [(JObj [(''inputs'', JStr s)], Pending)]).
        (\<exists>s'. generated uniref w j = Inr s'
           \<and> fst ((tasks p @ [(JObj [(''inputs'', JStr s)], Pending)]) ! j)
               = JObj [(''inputs'', JStr s')])
        \<and> task_inv w (submissions sch) (readings sch) j
             ((tasks p @ [(JObj [(''inputs'', JStr s)], Pending)]) ! j)"
    proof (intro allI impI)
      fix j assume "j < length (tasks p @ [(JObj [(''inputs'', JStr s)], Pending)])"
      then consider "j < length (tasks p)" | "j = length (tasks p)" by fastforce
      then show "(\<exists>s'. generated uniref w j = Inr s'
           \<and> fst ((tasks p @ [(JObj [(''inputs'', JStr s)], Pending)]) ! j)
               = JObj [(''inputs'', JStr s')])
        \<and> task_inv w (submissions sch) (readings sch) j
             ((tasks p @ [(JObj [(''inputs'', JStr s)], Pending)]) ! j)"
      proof cases
        case 1
        with inv show ?thesis by (simp add: pool_inv_def nth_append)
      next
        case 2
        with gen fresh show ?thesis by simp
      qed
    qed
    from inv guard below same each show ?thesis
      unfolding Build pool_inv_def subs rds p'
      by (simp add: less_SucI)
  qed
next
  case (Start i)
  from step Start have guard: "i < length (tasks p)" "snd (tasks p ! i) = Pending"
    by (simp_all split: if_splits)
  with step Start have p': "p' = p\<lparr>env := (env p)\<lparr>ticks := Suc (ticks (env p))\<rparr>,
      tasks := (tasks p)[i := (fst (tasks p ! i), Started (clock (env p) (ticks (env p))))]\<rparr>"
    by (simp add: time_time_def split: if_splits)
  have "task_inv w (submissions sch) (readings sch) i (tasks p ! i)"
    using inv guard(1) by (simp add: pool_inv_def)
  with guard(2) have fresh: "i \<notin> set (submissions sch)"
    by (cases "tasks p ! i") simp
  have tick: "clock (env p) (ticks (env p)) = clock w (ticks w + length (readings sch))"
    using inv by (simp add: pool_inv_def)
  show ?thesis
    unfolding Start p'
  proof (rule pool_inv_update [OF inv guard(1), where sub' = "[]" and rd' = "[Start i]"])
    have "length (readings sch) < length (readings sch @ [Start i])
        \<and> (readings sch @ [Start i]) ! length (readings sch) = Start i
        \<and> clock (env p) (ticks (env p)) = clock w (ticks w + length (readings sch))"
      using tick by simp
    with fresh show "task_inv w (submissions sch @ []) (readings sch @ [Start i]) i
        (fst (tasks p ! i), Started (clock (env p) (ticks (env p))))"
      unfolding task_inv.simps append_Nil2 by blast
  qed (use pool_invD [OF inv] in \<open>simp_all add: submissions_snoc readings_snoc\<close>)
next
  case (Invoke i)
  from step Invoke obtain t0 where guard: "i < length (tasks p)" "snd (tasks p ! i) = Started t0"
    by (auto split: if_splits phase.splits)
  define data where "data = fst (tasks p ! i)"
  define out where "out = endpoint (env p) (length (sent (env p))) data"
  from step Invoke guard have p': "p' = p\<lparr>env := (env p)\<lparr>sent := sent (env p) @ [data]\<rparr>,
      tasks := (tasks p)[i := (fst (tasks p ! i), Invoked t0 out)]\<rparr>"
    by (simp add: predictor_predict_def data_def out_def)
  have "task_inv w (submissions sch) (readings sch) i (tasks p ! i)"
    using inv guard(1) by (simp add: pool_inv_def)
  with guard(2) have fresh: "i \<notin> set (submissions sch)"
    and started: "\<exists>a<length (readings sch). readings sch ! a = Start i \<and> t0 = clock w (ticks w + a)"
    by (cases "tasks p ! i"; simp)+
  have len: "length (sent (env p)) = length (sent w) + length (submissions sch)"
    and ep: "endpoint (env p) = endpoint w"
    using inv by (simp_all add: pool_inv_def)
  show ?thesis
    unfolding Invoke p'
  proof (rule pool_inv_update [OF inv guard(1), where sub' = "[i]" and rd' = "[]"])
    have "length (submissions sch) < length (submissions sch @ [i])
        \<and> (submissions sch @ [i]) ! length (submissions sch) = i
        \<and> out = endpoint w (length (sent w) + length (submissions sch)) (fst (tasks p ! i))"
      by (simp add: out_def data_def len ep)
    then have "\<exists>k<length (submissions sch @ [i]). (submissions sch @ [i]) ! k = i
        \<and> out = endpoint w (length (sent w) + k) (fst (tasks p ! i))"
      by blast
    with started show "task_inv w (submissions sch @ [i]) (readings sch @ []) i
        (fst (tasks p ! i), Invoked t0 out)"
      unfolding task_inv.simps append_Nil2 by blast
    show "distinct (submissions sch @ [i])"
      using pool_invD(6) [OF inv] fresh by simp
  qed (use pool_invD [OF inv] in \<open>simp_all add: submissions_snoc readings_snoc data_def\<close>)
next
  case (Finish i)
  from step Finish obtain t0 out where guard: "i < length (tasks p)"
      "snd (tasks p ! i) = Invoked t0 out"
    by (auto split: if_splits phase.splits)
  define m where "m = \<lparr>latency = clock (env p) (ticks (env p)) - t0, error = isl out,
      result = (case out of Inl e \<Rightarrow> JArr [] | Inr v \<Rightarrow> v)\<rparr>"
  from step Finish guard have p': "p' = p\<lparr>env := (env p)\<lparr>ticks := Suc (ticks (env p))\<rparr>,
      tasks := (tasks p)[i := (fst (tasks p ! i), Done m)]\<rparr>"
    by (simp add: time_time_def m_def)
  have "task_inv w (submissions sch) (readings sch) i (tasks p ! i)"
    using inv guard(1) by (simp add: pool_inv_def)
  with guard(2) obtain a k where was: "a < length (readings sch)" "readings sch ! a = Start i"
      "t0 = clock w (ticks w + a)" "k < length (submissions sch)" "submissions sch ! k = i"
      "out = endpoint w (length (sent w) + k) (fst (tasks p ! i))"
    by (cases "tasks p ! i") auto
  have tick: "clock (env p) (ticks (env p)) = clock w (ticks w + length (readings sch))"
    using inv by (simp add: pool_inv_def)
  show ?thesis
    unfolding Finish p'
  proof (rule pool_inv_update [OF inv guard(1), where sub' = "[]" and rd' = "[Finish i]"])
    have "a < length (readings sch) \<and> length (readings sch) < length (readings sch @ [Finish i])
        \<and> (readings sch @ [Finish i]) ! a = Start i
        \<and> (readings sch @ [Finish i]) ! length (readings sch) = Finish i"
      using was(1,2) by (simp add: nth_append)
    moreover have "latency m = clock w (ticks w + length (readings sch)) - clock w (ticks w + a)"
      and "error m = isl (endpoint w (length (sent w) + k) (fst (tasks p ! i)))"
      and "result m = (case endpoint w (length (sent w) + k) (fst (tasks p ! i)) of
                         Inl e \<Rightarrow> JArr [] | Inr v \<Rightarrow> v)"
      using was(3,6) tick by (simp_all add: m_def)
    ultimately show "task_inv w (submissions sch @ []) (readings sch @ [Finish i]) i
        (fst (tasks p ! i), Done m)"
      unfolding task_inv.simps append_Nil2 using was(4,5) by blast
  qed (use pool_invD [OF inv] in \<open>simp_all add: submissions_snoc readings_snoc\<close>)
qed

lemma pool_run_inv:
  "pool_run uniref workers n sch (pool_start w) = Some p \<Longrightarrow> pool_inv uniref n w sch p"
proof (induction sch arbitrary: p rule: rev_induct)
  case Nil
  then show ?case using pool_inv_start by auto
next
  case (snoc ev sch)
  from snoc.prems obtain q where q: "pool_run uniref workers n sch (pool_start w) = Some q"
    and step: "pool_step uniref workers n ev q = Some p"
    by (auto simp add: pool_run_snoc split: option.splits)
  from snoc.IH [OF q] step show ?case by (rule pool_inv_step)
qed

lemma pool_step_raised:
  assumes "pool_step uniref workers n ev p = Some p'" and "raised p' = None"
  shows "raised p = None"
  using assms
  by (cases ev) (auto simp add: time_time_def predictor_predict_def
      split: if_splits prod.splits sum.splits phase.splits)

lemma pool_run_raised:
  "pool_run uniref workers n sch p = Some p' \<Longrightarrow> raised p' = None \<Longrightarrow> raised p = None"
proof (induction sch arbitrary: p)
  case Nil
  then show ?case by simp
next
  case (Cons ev sch)
  from Cons.prems(1) obtain q where step: "pool_step uniref workers n ev p = Some q"
    and rest: "pool_run uniref workers n sch q = Some p'"
    by (auto split: option.splits)
  from Cons.IH [OF rest Cons.prems(2)] have "raised q = None" .
  with step show ?case by (rule pool_step_raised)
qed

lemma pool_step_no_raise:
  assumes "uniref \<noteq> []" and "\<forall>s \<in> set uniref. s \<noteq> []"
    and "raised p = None" and "pool_step uniref workers n ev p = Some p'"
  shows "raised p' = None"
proof (cases ev)
  case Build
  obtain s where "fst (random_sequence uniref 128 (env p)) = Inr s"
    using random_sequence_returns [OF assms(1,2), of 128 "env p"] by auto
  then obtain w' where "random_sequence uniref 128 (env p) = (Inr s, w')"
    by (metis prod.collapse)
  with assms(3,4) Build show ?thesis by (auto split: if_splits)
next
  case (Start i)
  with assms(3,4) show ?thesis by (auto simp add: time_time_def split: if_splits)
next
  case (Invoke i)
  with assms(3,4) show ?thesis
    by (auto simp add: predictor_predict_def split: if_splits phase.splits)
next
  case (Finish i)
  with assms(3,4) show ?thesis
    by (auto simp add: time_time_def split: if_splits phase.splits)
qed

lemma pool_run_no_raise:
  assumes "uniref \<noteq> []" and "\<forall>s \<in> set uniref. s \<noteq> []"
  shows "raised p = None \<Longrightarrow> pool_run uniref workers n sch p = Some p' \<Longrightarrow> raised p' = None"
proof (induction sch arbitrary: p)
  case Nil
  then show ?case by simp
next
  case (Cons ev sch)
  from Cons.prems(2) obtain q where step: "pool_step uniref workers n ev p = Some q"
    and rest: "pool_run uniref workers n sch q = Some p'"
    by (auto split: option.splits)
  from pool_step_no_raise [OF assms Cons.prems(1) step] have "raised q = None" .
  from Cons.IH [OF this rest] show ?case .
qed

lemma remaining_update:
  assumes "i < length ts" and "Suc (remaining ph') = remaining (snd (ts ! i))"
  shows "Suc (sum_list (map (remaining \<circ> snd) (ts[i := (d, ph')]))) =
         sum_list (map (remaining \<circ> snd) ts)"
  using assms
proof (induction ts arbitrary: i)
  case Nil
  then show ?case by simp
next
  case (Cons t ts)
  show ?case
  proof (cases i)
    case 0
    with Cons.prems show ?thesis by simp
  next
    case (Suc j)
    with Cons.prems have "j < length ts" "Suc (remaining ph') = remaining (snd (ts ! j))"
      by simp_all
    from Cons.IH [OF this] Suc show ?thesis by simp
  qed
qed

lemma pool_step_to_do:
  assumes "pool_step uniref workers n ev p = Some p'" and "raised p' = None"
  shows "Suc (to_do n p') = to_do n p"
proof (cases ev)
  case Build
  from assms Build have len: "length (tasks p) < n" by (simp split: if_splits)
  from assms Build obtain s where "tasks p' = tasks p @ [(JObj [(''inputs'', JStr s)], Pending)]"
    by (auto split: if_splits prod.splits sum.splits)
  with len show ?thesis by (simp add: to_do_def)
next
  case (Start i)
  from assms Start have i: "i < length (tasks p)" "snd (tasks p ! i) = Pending"
    by (simp_all split: if_splits)
  with assms Start obtain t where "tasks p' = (tasks p)[i := (fst (tasks p ! i), Started t)]"
    by (auto simp add: time_time_def split: if_splits)
  with i remaining_update [of i "tasks p" "Started t" "fst (tasks p ! i)"]
  show ?thesis by (simp add: to_do_def)
next
  case (Invoke i)
  from assms Invoke obtain t0 where i: "i < length (tasks p)" "snd (tasks p ! i) = Started t0"
    by (auto split: if_splits phase.splits)
  with assms Invoke obtain out where
    "tasks p' = (tasks p)[i := (fst (tasks p ! i), Invoked t0 out)]"
    by (auto simp add: predictor_predict_def)
  with i remaining_update [of i "tasks p" "Invoked t0 out" "fst (tasks p ! i)"]
  show ?thesis by (simp add: to_do_def)
next
  case (Finish i)
  from assms Finish obtain t0 out where i: "i < length (tasks p)"
      "snd (tasks p ! i) = Invoked t0 out"
    by (auto split: if_splits phase.splits)
  with assms Finish obtain m where "tasks p' = (tasks p)[i := (fst (tasks p ! i), Done m)]"
    by (auto simp add: time_time_def)
  with i remaining_update [of i "tasks p" "Done m" "fst (tasks p ! i)"]
  show ?thesis by (simp add: to_do_def)
qed

lemma pool_run_to_do:
  "pool_run uniref workers n sch p = Some p' \<Longrightarrow> raised p' = None \<Longrightarrow>
   length sch + to_do n p' = to_do n p"
proof (induction sch arbitrary: p)
  case Nil
  then show ?case by simp
next
  case (Cons ev sch)
  from Cons.prems(1) obtain q where step: "pool_step uniref workers n ev p = Some q"
    and rest: "pool_run uniref workers n sch q = Some p'"
    by (auto split: option.splits)
  from pool_run_raised [OF rest Cons.prems(2)] have "raised q = None" .
  from pool_step_to_do [OF step this] Cons.IH [OF rest Cons.prems(2)]
  show ?case by simp
qed

lemma to_do_start: "to_do n (pool_start w) = 4 * n"
  by (simp add: to_do_def pool_start_def)

lemma to_do_zero:
  assumes "to_do n p = 0" and "length (tasks p) \<le> n"
  shows "length (tasks p) = n \<and> list_all finished (map snd (tasks p))"
proof -
  from assms have len: "length (tasks p) = n" by (simp add: to_do_def)
  from assms(1) have "\<forall>t \<in> set (tasks p). remaining (snd t) = 0"
    by (simp add: to_do_def)
  then have "\<forall>t \<in> set (tasks p). finished (snd t)"
    by (metis remaining.elims finished.simps(1) numeral_eq_iff zero_neq_numeral One_nat_def
        zero_neq_one semiring_norm(85))
  with len show ?thesis by (simp add: list_all_iff)
qed

lemma pool_step_length:
  assumes "pool_step uniref workers n ev p = Some p'" and "length (tasks p) \<le> n"
  shows "length (tasks p') \<le> n"
  using assms
  by (cases ev) (auto simp add: time_time_def predictor_predict_def
      split: if_splits prod.splits sum.splits phase.splits)

lemma pool_step_progress:
  assumes "raised p = None" and "1 \<le> workers" and "0 < to_do n p"
  shows "\<exists>ev p'. pool_step uniref workers n ev p = Some p'"
proof (cases "\<exists>i<length (tasks p). busy (snd (tasks p ! i))")
  case True
  then obtain i where i: "i < length (tasks p)" "busy (snd (tasks p ! i))" by blast
  show ?thesis
  proof (cases "snd (tasks p ! i)")
    case (Started t)
    with i have "\<exists>p'. pool_step uniref workers n (Invoke i) p = Some p'"
      by (simp add: predictor_predict_def)
    then show ?thesis by blast
  next
    case (Invoked t out)
    with i have "\<exists>p'. pool_step uniref workers n (Finish i) p = Some p'"
      by (simp add: time_time_def)
    then show ?thesis by blast
  qed (use i in simp_all)
next
  case False
  have "\<forall>ph \<in> set (map snd (tasks p)). \<not> busy ph"
  proof
    fix ph assume "ph \<in> set (map snd (tasks p))"
    then obtain i where "i < length (tasks p)" "snd (tasks p ! i) = ph"
      by (auto simp add: in_set_conv_nth)
    with False show "\<not> busy ph" by blast
  qed
  then have idle: "filter busy (map snd (tasks p)) = []"
    by (simp add: filter_empty_conv)
  show ?thesis
  proof (cases "\<exists>i<length (tasks p). snd (tasks p ! i) = Pending")
    case True
    then obtain i where i: "i < length (tasks p)" "snd (tasks p ! i) = Pending" by blast
    with idle assms(2) have "\<exists>p'. pool_step uniref workers n (Start i) p = Some p'"
      by (simp add: time_time_def)
    then show ?thesis by blast
  next
    case none: False
    have all: "\<forall>t \<in> set (tasks p). finished (snd t)"
    proof
      fix t assume "t \<in> set (tasks p)"
      then obtain i where i: "i < length (tasks p)" "tasks p ! i = t"
        by (auto simp add: in_set_conv_nth)
      with False none have "\<not> busy (snd t)" "snd t \<noteq> Pending" by auto
      then show "finished (snd t)" by (cases "snd t") simp_all
    qed
    then have "\<forall>t \<in> set (tasks p). remaining (snd t) = 0"
    proof (intro ballI)
      fix t assume "t \<in> set (tasks p)"
      with all have "finished (snd t)" by blast
      then show "remaining (snd t) = 0" by (cases "snd t") simp_all
    qed
    then have "sum_list (map (remaining \<circ> snd) (tasks p)) = 0" by simp
    with assms(3) have len: "length (tasks p) < n" by (simp add: to_do_def)
    from all have fin: "list_all finished (map snd (tasks p))" by (simp add: list_all_iff)
    obtain r w' where "random_sequence uniref 128 (env p) = (r, w')"
      by (cases "random_sequence uniref 128 (env p)") blast
    with assms(1) len fin have "\<exists>p'. pool_step uniref workers n Build p = Some p'"
      by (cases r) simp_all
    then show ?thesis by blast
  qed
qed

lemma pool_run_completes:
  assumes "uniref \<noteq> []" and "\<forall>s \<in> set uniref. s \<noteq> []" and "1 \<le> workers"
  shows "raised p = None \<Longrightarrow> length (tasks p) \<le> n \<Longrightarrow> to_do n p = k \<Longrightarrow>
    \<exists>more p'. pool_run uniref workers n more p = Some p' \<and> raised p' = None
      \<and> to_do n p' = 0 \<and> length (tasks p') \<le> n"
proof (induction k arbitrary: p)
  case 0
  then have "pool_run uniref workers n [] p = Some p \<and> raised p = None
      \<and> to_do n p = 0 \<and> length (tasks p) \<le> n"
    by simp
  then show ?case by blast
next
  case (Suc k)
  from Suc.prems(3) have "0 < to_do n p" by simp
  from pool_step_progress [OF Suc.prems(1) assms(3) this]
  obtain ev q where step: "pool_step uniref workers n ev p = Some q" by blast
  from pool_step_no_raise [OF assms(1,2) Suc.prems(1) step] have rq: "raised q = None" .
  from pool_step_to_do [OF step rq] Suc.prems(3) have tq: "to_do n q = k" by simp
  from pool_step_length [OF step Suc.prems(2)] have lq: "length (tasks q) \<le> n" .
  from Suc.IH [OF rq lq tq] obtain more p' where
    "pool_run uniref workers n more q = Some p'" "raised p' = None" "to_do n p' = 0"
    "length (tasks p') \<le> n"
    by blast
  with step have "pool_run uniref workers n (ev # more) p = Some p' \<and> raised p' = None
      \<and> to_do n p' = 0 \<and> length (tasks p') \<le> n"
    by simp
  then show ?case by blast
qed

lemma records_finished:
  "list_all finished (map snd ts) \<Longrightarrow>
     length (concat (map (record_of \<circ> snd) ts)) = length ts
     \<and> (\<forall>i<length ts. snd (ts ! i) = Done (concat (map (record_of \<circ> snd) ts) ! i))"
proof (induction ts)
  case Nil
  then show ?case by simp
next
  case (Cons t ts)
  then obtain m where m: "snd t = Done m" by (cases "snd t") simp_all
  from Cons have ih: "length (concat (map (record_of \<circ> snd) ts)) = length ts"
    "\<forall>i<length ts. snd (ts ! i) = Done (concat (map (record_of \<circ> snd) ts) ! i)"
    by (simp_all add: comp_def)
  show ?case
  proof (intro conjI allI impI)
    show "length (concat (map (record_of \<circ> snd) (t # ts))) = length (t # ts)"
      using m ih(1) by simp
  next
    fix i assume "i < length (t # ts)"
    then show "snd ((t # ts) ! i) = Done (concat (map (record_of \<circ> snd) (t # ts)) ! i)"
      using m ih(2) by (cases i) simp_all
  qed
qed

lemma benchmark_requests_run:
  assumes "benchmark_requests cpu_count uniref number_of_clients n schedule w = Some (out, w')"
    and "number_of_clients \<noteq> 0"
  obtains workers p where "effective_n_jobs cpu_count number_of_clients = Inr workers"
    and "pool_run uniref workers n schedule (pool_start w) = Some p"
    and "w' = env p"
    and "raised p = None \<longrightarrow> out = Inr (concat (map (record_of \<circ> snd) (tasks p)))
           \<and> length (tasks p) = n \<and> list_all finished (map snd (tasks p))"
    and "\<forall>results. out = Inr results \<longrightarrow> raised p = None"
proof -
  from assms(2) have "\<exists>workers. effective_n_jobs cpu_count number_of_clients = Inr workers"
    by (simp add: effective_n_jobs_def)
  then obtain workers where wk: "effective_n_jobs cpu_count number_of_clients = Inr workers"
    by blast
  with assms(1) obtain p where run: "pool_run uniref workers n schedule (pool_start w) = Some p"
    by (auto simp add: benchmark_requests_def split: option.splits)
  from assms(1) wk run have "w' = env p"
    and "raised p = None \<longrightarrow> out = Inr (concat (map (record_of \<circ> snd) (tasks p)))
           \<and> length (tasks p) = n \<and> list_all finished (map snd (tasks p))"
    and "\<forall>results. out = Inr results \<longrightarrow> raised p = None"
    by (auto simp add: benchmark_requests_def split: option.splits if_splits)
  with wk run show thesis by (rule that)
qed

lemma pool_inv_finished:
  assumes inv: "pool_inv uniref n w schedule p"
    and len: "length (tasks p) = n"
    and fin: "list_all finished (map snd (tasks p))"
  defines "results \<equiv> concat (map (record_of \<circ> snd) (tasks p))"
    and "ps \<equiv> map fst (tasks p)"
  shows "length results = n" and "length ps = n"
    and "\<forall>i<n. \<exists>s. generated uniref w i = Inr s \<and> ps ! i = JObj [(''inputs'', JStr s)]"
    and "set (submissions schedule) = {..<n}"
    and "sent (env p) = sent w @ map (\<lambda>i. ps ! i) (submissions schedule)"
    and "\<forall>k<n. error (results ! (submissions schedule ! k)) =
            isl (endpoint w (length (sent w) + k) (ps ! (submissions schedule ! k)))
          \<and> result (results ! (submissions schedule ! k)) =
            (case endpoint w (length (sent w) + k) (ps ! (submissions schedule ! k)) of
               Inl e \<Rightarrow> JArr [] | Inr v \<Rightarrow> v)"
    and "\<forall>i<n. \<exists>a b. a < b \<and> b < length (readings schedule)
            \<and> readings schedule ! a = Start i \<and> readings schedule ! b = Finish i
            \<and> latency (results ! i) = clock w (ticks w + b) - clock w (ticks w + a)"
proof -
  note d = pool_invD [OF inv]
  from records_finished [OF fin] have rl: "length results = length (tasks p)"
    and at_end: "\<forall>i<length (tasks p). snd (tasks p ! i) = Done (results ! i)"
    by (simp_all add: results_def)
  have task: "\<And>i. i < n \<Longrightarrow>
      task_inv w (submissions schedule) (readings schedule) i (ps ! i, Done (results ! i))"
  proof -
    fix i assume i: "i < n"
    with len d(10) have "task_inv w (submissions schedule) (readings schedule) i (tasks p ! i)"
      by simp
    moreover from i len at_end have "tasks p ! i = (ps ! i, Done (results ! i))"
      by (simp add: ps_def prod_eq_iff)
    ultimately show "task_inv w (submissions schedule) (readings schedule) i
        (ps ! i, Done (results ! i))"
      by simp
  qed
  show "length results = n" using rl len by simp
  show "length ps = n" using len by (simp add: ps_def)
  show "\<forall>i<n. \<exists>s. generated uniref w i = Inr s \<and> ps ! i = JObj [(''inputs'', JStr s)]"
    using d(10) len by (simp add: ps_def)
  show subs: "set (submissions schedule) = {..<n}"
  proof
    show "set (submissions schedule) \<subseteq> {..<n}" using d(7) len by auto
    show "{..<n} \<subseteq> set (submissions schedule)"
    proof
      fix i assume "i \<in> {..<n}"
      then have "i < n" by simp
      from task [OF this] obtain k where "k < length (submissions schedule)"
          "submissions schedule ! k = i"
        by auto
      then show "i \<in> set (submissions schedule)" by (metis nth_mem)
    qed
  qed
  have "map (\<lambda>i. fst (tasks p ! i)) (submissions schedule) =
      map (\<lambda>i. ps ! i) (submissions schedule)"
    using d(7) by (simp add: ps_def)
  with d(5) show "sent (env p) = sent w @ map (\<lambda>i. ps ! i) (submissions schedule)" by simp
  have sublen: "length (submissions schedule) = n"
    using d(6) subs by (metis card_lessThan distinct_card)
  show "\<forall>k<n. error (results ! (submissions schedule ! k)) =
            isl (endpoint w (length (sent w) + k) (ps ! (submissions schedule ! k)))
          \<and> result (results ! (submissions schedule ! k)) =
            (case endpoint w (length (sent w) + k) (ps ! (submissions schedule ! k)) of
               Inl e \<Rightarrow> JArr [] | Inr v \<Rightarrow> v)"
  proof (intro allI impI)
    fix k assume k: "k < n"
    define i where "i = submissions schedule ! k"
    from k sublen have "i \<in> set (submissions schedule)" by (simp add: i_def)
    with subs have i: "i < n" by simp
    from task [OF i] obtain k' where k': "k' < length (submissions schedule)"
        "submissions schedule ! k' = i"
        "error (results ! i) = isl (endpoint w (length (sent w) + k') (ps ! i))"
        "result (results ! i) =
           (case endpoint w (length (sent w) + k') (ps ! i) of Inl e \<Rightarrow> JArr [] | Inr v \<Rightarrow> v)"
      by auto
    from k'(1,2) k sublen d(6) have "k' = k"
      by (simp add: i_def nth_eq_iff_index_eq)
    with k'(3,4) show "error (results ! (submissions schedule ! k)) =
            isl (endpoint w (length (sent w) + k) (ps ! (submissions schedule ! k)))
          \<and> result (results ! (submissions schedule ! k)) =
            (case endpoint w (length (sent w) + k) (ps ! (submissions schedule ! k)) of
               Inl e \<Rightarrow> JArr [] | Inr v \<Rightarrow> v)"
      by (simp add: i_def)
  qed
  show "\<forall>i<n. \<exists>a b. a < b \<and> b < length (readings schedule)
            \<and> readings schedule ! a = Start i \<and> readings schedule ! b = Finish i
            \<and> latency (results ! i) = clock w (ticks w + b) - clock w (ticks w + a)"
  proof (intro allI impI)
    fix i assume "i < n"
    from task [OF this] show "\<exists>a b. a < b \<and> b < length (readings schedule)
            \<and> readings schedule ! a = Start i \<and> readings schedule ! b = Finish i
            \<and> latency (results ! i) = clock w (ticks w + b) - clock w (ticks w + a)"
      unfolding task_inv.simps by blast
  qed
qed

lemma worker_runs_inference_latency:
  assumes "i < length (tasks p)" and "tasks p ! i = (data, Pending)"
    and "length (filter busy (map snd (tasks p))) < workers"
  shows "\<exists>m w'. inference_latency predictor_predict data (env p) = (Inr m, w')
      \<and> pool_run uniref workers n [Start i, Invoke i, Finish i] p =
          Some (p\<lparr>env := w', tasks := (tasks p)[i := (data, Done m)]\<rparr>)"
  using assms
  by (simp add: inference_latency_predict time_time_def predictor_predict_def)

text \<open>
  Claim C4 holds for every number of clients and runs only if every request can be
  built. A list of sequences that holds an empty sequence makes \<open>random_sequence\<close>
  raise in the generator, and the exception leaves the parallel map: a run of one
  request with two clients over such a list ends with ValueError and has issued no
  request.
\<close>

theorem benchmark_requests_empty_sequence:
  "benchmark_requests 8 [[]] 2 1 [Build] (world_of [] [] []) =
     Some (Inl ValueError, (world_of [] [] [])\<lparr>draws := 1\<rparr>)
   \<and> sent ((world_of [] [] [])\<lparr>draws := 1\<rparr>) = []"
  by (simp add: benchmark_requests_def effective_n_jobs_def pool_start_def py_defs
      random_sequence_def random_choice_def random_randint_def slice_to_def world_of_def Let_def)

text \<open>
  Claim C4, amended by what the list of sequences must be. Let the list of sequences be
  not empty and hold no empty sequence, and let \<open>number_of_clients\<close> be at least 1.
  Then, however the worker threads interleave:
  \<^item> no schedule of the parallel map raises, none has more than four events per
    request, and each can be continued to a run that returns;
  \<^item> a run that returns has issued exactly \<open>number_of_runs\<close> requests, the \<open>i\<close>-th of
    them the \<open>i\<close>-th the generator yields, each submitted once, and has collected exactly
    one record per request: the lists of latencies and of error flags have the length
    \<open>number_of_runs\<close>, and the \<open>i\<close>-th record is that of the \<open>i\<close>-th request. It holds
    the outcome of that request's own submission and the difference of the clock
    readings of that task's own finish and start.
\<close>

theorem benchmark_requests_lengths:
  assumes "1 \<le> number_of_clients"
    and "uniref \<noteq> []" and "\<forall>s \<in> set uniref. s \<noteq> []"
  shows "(\<forall>schedule p.
            pool_run uniref (nat number_of_clients) number_of_runs schedule (pool_start w) = Some p
            \<longrightarrow> raised p = None \<and> length schedule \<le> 4 * number_of_runs
              \<and> (\<exists>more results w'.
                    benchmark_requests cpu_count uniref number_of_clients number_of_runs
                      (schedule @ more) w = Some (Inr results, w')))
       \<and> (\<forall>schedule out w'.
            benchmark_requests cpu_count uniref number_of_clients number_of_runs schedule w
              = Some (out, w')
            \<longrightarrow> (\<exists>results ps.
                   out = Inr results
                 \<and> length results = number_of_runs
                 \<and> length (map latency results) = number_of_runs
                 \<and> length (map error results) = number_of_runs
                 \<and> length ps = number_of_runs
                 \<and> (\<forall>i<number_of_runs. \<exists>s.
                       generated uniref w i = Inr s \<and> ps ! i = JObj [(''inputs'', JStr s)])
                 \<and> distinct (submissions schedule)
                 \<and> set (submissions schedule) = {..<number_of_runs}
                 \<and> sent w' = sent w @ map (\<lambda>i. ps ! i) (submissions schedule)
                 \<and> (\<forall>k<number_of_runs.
                       error (results ! (submissions schedule ! k)) =
                         isl (endpoint w (length (sent w) + k) (ps ! (submissions schedule ! k)))
                     \<and> result (results ! (submissions schedule ! k)) =
                         (case endpoint w (length (sent w) + k) (ps ! (submissions schedule ! k)) of
                            Inl e \<Rightarrow> JArr [] | Inr v \<Rightarrow> v))
                 \<and> (\<forall>i<number_of_runs. \<exists>a b.
                       a < b \<and> b < length (readings schedule)
                     \<and> readings schedule ! a = Start i \<and> readings schedule ! b = Finish i
                     \<and> latency (results ! i) =
                         clock w (ticks w + b) - clock w (ticks w + a))))"
proof (intro conjI allI impI)
  have wk: "effective_n_jobs cpu_count number_of_clients = Inr (nat number_of_clients)"
    and pos: "1 \<le> nat number_of_clients"
    using assms(1) by (simp_all add: effective_n_jobs_def)
  have start: "raised (pool_start w) = None" by (simp add: pool_start_def)
  {
    fix schedule p
    assume run: "pool_run uniref (nat number_of_clients) number_of_runs schedule (pool_start w)
        = Some p"
    from pool_run_no_raise [OF assms(2,3) start run] show no: "raised p = None" .
    from pool_run_to_do [OF run no] show "length schedule \<le> 4 * number_of_runs"
      by (simp add: to_do_start)
    from pool_run_inv [OF run] have len: "length (tasks p) \<le> number_of_runs"
      by (rule pool_invD)
    from pool_run_completes [OF assms(2,3) pos no len refl]
    obtain more p' where more: "pool_run uniref (nat number_of_clients) number_of_runs more p
          = Some p'"
      and end': "raised p' = None" "to_do number_of_runs p' = 0"
        "length (tasks p') \<le> number_of_runs"
      by blast
    from run more have "pool_run uniref (nat number_of_clients) number_of_runs
        (schedule @ more) (pool_start w) = Some p'"
      by (simp add: pool_run_append)
    with wk end'(1) to_do_zero [OF end'(2,3)]
    have "benchmark_requests cpu_count uniref number_of_clients number_of_runs
        (schedule @ more) w = Some (Inr (concat (map (record_of \<circ> snd) (tasks p'))), env p')"
      by (simp add: benchmark_requests_def)
    then show "\<exists>more results w'.
        benchmark_requests cpu_count uniref number_of_clients number_of_runs
          (schedule @ more) w = Some (Inr results, w')"
      by blast
  }
  fix schedule out w'
  assume ret: "benchmark_requests cpu_count uniref number_of_clients number_of_runs schedule w
      = Some (out, w')"
  from assms(1) have nz: "number_of_clients \<noteq> 0" by simp
  obtain workers p where wk': "effective_n_jobs cpu_count number_of_clients = Inr workers"
    and run': "pool_run uniref workers number_of_runs schedule (pool_start w) = Some p"
    and w': "w' = env p"
    and fin: "raised p = None \<longrightarrow> out = Inr (concat (map (record_of \<circ> snd) (tasks p)))
        \<and> length (tasks p) = number_of_runs \<and> list_all finished (map snd (tasks p))"
    by (rule benchmark_requests_run [OF ret nz])
  from wk wk' have "workers = nat number_of_clients" by simp
  with run' have
    run: "pool_run uniref (nat number_of_clients) number_of_runs schedule (pool_start w) = Some p"
    by simp
  from pool_run_no_raise [OF assms(2,3) start run] fin
  have out: "out = Inr (concat (map (record_of \<circ> snd) (tasks p)))"
    and len: "length (tasks p) = number_of_runs"
    and all: "list_all finished (map snd (tasks p))"
    by simp_all
  note inv = pool_run_inv [OF run]
  note f = pool_inv_finished [OF inv len all]
  from out f pool_invD(6) [OF inv]
  show "\<exists>results ps.
      out = Inr results
    \<and> length results = number_of_runs
    \<and> length (map latency results) = number_of_runs
    \<and> length (map error results) = number_of_runs
    \<and> length ps = number_of_runs
    \<and> (\<forall>i<number_of_runs. \<exists>s.
          generated uniref w i = Inr s \<and> ps ! i = JObj [(''inputs'', JStr s)])
    \<and> distinct (submissions schedule)
    \<and> set (submissions schedule) = {..<number_of_runs}
    \<and> sent w' = sent w @ map (\<lambda>i. ps ! i) (submissions schedule)
    \<and> (\<forall>k<number_of_runs.
          error (results ! (submissions schedule ! k)) =
            isl (endpoint w (length (sent w) + k) (ps ! (submissions schedule ! k)))
        \<and> result (results ! (submissions schedule ! k)) =
            (case endpoint w (length (sent w) + k) (ps ! (submissions schedule ! k)) of
               Inl e \<Rightarrow> JArr [] | Inr v \<Rightarrow> v))
    \<and> (\<forall>i<number_of_runs. \<exists>a b.
          a < b \<and> b < length (readings schedule)
        \<and> readings schedule ! a = Start i \<and> readings schedule ! b = Finish i
        \<and> latency (results ! i) =
            clock w (ticks w + b) - clock w (ticks w + a))"
    unfolding w'
    by (intro exI [of _ "concat (map (record_of \<circ> snd) (tasks p))"]
        exI [of _ "map fst (tasks p)"] conjI) simp_all
qed

theorem benchmark_requests_lengths_witness:
  "benchmark_requests 8 [''MKV''] 2 2
      [Build, Build, Start 0, Start 1, Invoke 0, Invoke 1, Finish 0, Finish 1] two_call_world =
     Some (Inr [\<lparr>latency = 10, error = False, result = JObj [(''K'', JNum (1 / 2))]\<rparr>,
                \<lparr>latency = 13, error = True, result = JArr []\<rparr>],
           two_call_world\<lparr>ticks := 4, draws := 4,
             sent := [JObj [(''inputs'', JStr ''M<mask>V'')],
                      JObj [(''inputs'', JStr ''MK<mask>'')]]\<rparr>)
   \<and> set (submissions [Build, Build, Start 0, Start 1, Invoke 0, Invoke 1, Finish 0, Finish 1])
       = {..<2}
   \<and> (\<exists>more results w'.
         benchmark_requests 8 [''MKV''] 2 2 ([Build, Start 0] @ more) two_call_world =
           Some (Inr results, w'))"
proof -
  have h: "(1::int) \<le> 2" "[''MKV''] \<noteq> []" "\<forall>s \<in> set [''MKV'']. s \<noteq> []"
    by simp_all
  note all = benchmark_requests_lengths [OF h, of 2 two_call_world 8]
  have run: "benchmark_requests 8 [''MKV''] 2 2
      [Build, Build, Start 0, Start 1, Invoke 0, Invoke 1, Finish 0, Finish 1] two_call_world =
     Some (Inr [\<lparr>latency = 10, error = False, result = JObj [(''K'', JNum (1 / 2))]\<rparr>,
                \<lparr>latency = 13, error = True, result = JArr []\<rparr>],
           two_call_world\<lparr>ticks := 4, draws := 4,
             sent := [JObj [(''inputs'', JStr ''M<mask>V'')],
                      JObj [(''inputs'', JStr ''MK<mask>'')]]\<rparr>)"
    by (simp add: benchmark_requests_def effective_n_jobs_def pool_start_def py_defs
        random_sequence_def random_choice_def random_randint_def slice_to_def setitem_def
        time_time_def predictor_predict_def two_call_world_def world_of_def Let_def)
  from all [THEN conjunct2, rule_format, OF run]
  have served: "set (submissions
      [Build, Build, Start 0, Start 1, Invoke 0, Invoke 1, Finish 0, Finish 1]) = {..<2}"
    by blast
  have "\<exists>p. pool_run [''MKV''] (nat 2) 2 [Build, Start 0] (pool_start two_call_world) = Some p"
    by (simp add: pool_start_def py_defs random_sequence_def random_choice_def
        random_randint_def slice_to_def setitem_def time_time_def two_call_world_def
        world_of_def Let_def)
  then obtain p where
    "pool_run [''MKV''] (nat 2) 2 [Build, Start 0] (pool_start two_call_world) = Some p"
    by blast
  from all [THEN conjunct1, rule_format, OF this]
  have "\<exists>more results w'.
         benchmark_requests 8 [''MKV''] 2 2 ([Build, Start 0] @ more) two_call_world =
           Some (Inr results, w')"
    by blast
  with run served show ?thesis by blast
qed

text \<open>
  Claim C5: the benchmark never retries. One \<open>inference_latency\<close> around
  \<^verbatim>\<open>predictor.predict\<close> submits its payload to the endpoint exactly once, whether the
  invocation fails or not. In the parallel map, however the worker threads interleave
  and however the run ends:
  \<^item> no request is submitted twice, and what has reached the endpoint is exactly the
    payloads of the submissions, each the request the generator yielded in the place of
    its task, so that no submission repeats the payload of another task;
  \<^item> when the run returns, every request has been submitted exactly once, and the record
    of a request has its error flag set exactly when that request's own submission
    failed;
  \<^item> once a request has been submitted, failed or not, its submission cannot happen
    again in any state the map can reach.
\<close>

theorem benchmark_never_retries:
  "sent (snd (inference_latency predictor_predict data w)) = sent w @ [data]
   \<and> (\<forall>schedule out w'.
        benchmark_requests cpu_count uniref number_of_clients number_of_runs schedule w
          = Some (out, w')
        \<longrightarrow> distinct (submissions schedule)
          \<and> (\<exists>ps. length ps \<le> number_of_runs
                \<and> (\<forall>i<length ps. \<exists>s.
                      generated uniref w i = Inr s \<and> ps ! i = JObj [(''inputs'', JStr s)])
                \<and> (\<forall>i \<in> set (submissions schedule). i < length ps)
                \<and> sent w' = sent w @ map (\<lambda>i. ps ! i) (submissions schedule)
                \<and> (\<forall>results. out = Inr results \<longrightarrow>
                      length ps = number_of_runs
                    \<and> set (submissions schedule) = {..<number_of_runs}
                    \<and> (\<forall>k<number_of_runs.
                          error (results ! (submissions schedule ! k)) =
                            isl (endpoint w (length (sent w) + k)
                                   (ps ! (submissions schedule ! k)))))))
   \<and> (\<forall>schedule workers p i.
        pool_run uniref workers number_of_runs schedule (pool_start w) = Some p
        \<and> i \<in> set (submissions schedule)
        \<longrightarrow> pool_step uniref workers number_of_runs (Invoke i) p = None)"
proof (intro conjI allI impI)
  show "sent (snd (inference_latency predictor_predict data w)) = sent w @ [data]"
    by (simp add: inference_latency_predict)
next
  fix schedule out w'
  assume ret: "benchmark_requests cpu_count uniref number_of_clients number_of_runs schedule w
      = Some (out, w')"
  have "distinct (submissions schedule)
      \<and> (\<exists>ps. length ps \<le> number_of_runs
            \<and> (\<forall>i<length ps. \<exists>s.
                  generated uniref w i = Inr s \<and> ps ! i = JObj [(''inputs'', JStr s)])
            \<and> (\<forall>i \<in> set (submissions schedule). i < length ps)
            \<and> sent w' = sent w @ map (\<lambda>i. ps ! i) (submissions schedule)
            \<and> (\<forall>results. out = Inr results \<longrightarrow>
                  length ps = number_of_runs
                \<and> set (submissions schedule) = {..<number_of_runs}
                \<and> (\<forall>k<number_of_runs.
                      error (results ! (submissions schedule ! k)) =
                        isl (endpoint w (length (sent w) + k)
                               (ps ! (submissions schedule ! k))))))"
  proof (cases "number_of_clients = 0")
    case True
    with ret have "schedule = []" "w' = w" "out = Inl ValueError"
      by (simp_all add: benchmark_requests_def effective_n_jobs_def split: if_splits)
    then have "length ([]::json list) \<le> number_of_runs
        \<and> (\<forall>i<length ([]::json list). \<exists>s.
              generated uniref w i = Inr s \<and> [] ! i = JObj [(''inputs'', JStr s)])
        \<and> (\<forall>i \<in> set (submissions schedule). i < length ([]::json list))
        \<and> sent w' = sent w @ map (\<lambda>i. [] ! i) (submissions schedule)
        \<and> (\<forall>results. out = Inr results \<longrightarrow>
              length ([]::json list) = number_of_runs
            \<and> set (submissions schedule) = {..<number_of_runs}
            \<and> (\<forall>k<number_of_runs.
                  error (results ! (submissions schedule ! k)) =
                    isl (endpoint w (length (sent w) + k) ([] ! (submissions schedule ! k)))))"
      by simp
    with \<open>schedule = []\<close> show ?thesis by (intro conjI exI [of _ "[]"]) simp_all
  next
    case False
    obtain workers p where
      run: "pool_run uniref workers number_of_runs schedule (pool_start w) = Some p"
      and w': "w' = env p"
      and fin: "raised p = None \<longrightarrow> out = Inr (concat (map (record_of \<circ> snd) (tasks p)))
          \<and> length (tasks p) = number_of_runs \<and> list_all finished (map snd (tasks p))"
      and ok: "\<forall>results. out = Inr results \<longrightarrow> raised p = None"
      by (rule benchmark_requests_run [OF ret False])
    note inv = pool_run_inv [OF run]
    note d = pool_invD [OF inv]
    have same: "map (\<lambda>i. fst (tasks p ! i)) (submissions schedule) =
        map (\<lambda>i. map fst (tasks p) ! i) (submissions schedule)"
      using d(7) by simp
    have a: "length (map fst (tasks p)) \<le> number_of_runs" using d(8) by simp
    have b: "\<forall>i<length (map fst (tasks p)). \<exists>s.
        generated uniref w i = Inr s \<and> map fst (tasks p) ! i = JObj [(''inputs'', JStr s)]"
      using d(10) by simp
    have c: "\<forall>i \<in> set (submissions schedule). i < length (map fst (tasks p))"
      using d(7) by simp
    have e: "sent w' = sent w @ map (\<lambda>i. map fst (tasks p) ! i) (submissions schedule)"
      using d(5) same w' by simp
    have f: "\<forall>results. out = Inr results \<longrightarrow>
          length (map fst (tasks p)) = number_of_runs
        \<and> set (submissions schedule) = {..<number_of_runs}
        \<and> (\<forall>k<number_of_runs.
              error (results ! (submissions schedule ! k)) =
                isl (endpoint w (length (sent w) + k)
                       (map fst (tasks p) ! (submissions schedule ! k))))"
    proof (intro allI impI)
      fix results assume r: "out = Inr results"
      with ok fin have res: "results = concat (map (record_of \<circ> snd) (tasks p))"
        and len: "length (tasks p) = number_of_runs"
        and all: "list_all finished (map snd (tasks p))"
        by simp_all
      note g = pool_inv_finished [OF inv len all]
      from g(2,4,6) show "length (map fst (tasks p)) = number_of_runs
        \<and> set (submissions schedule) = {..<number_of_runs}
        \<and> (\<forall>k<number_of_runs.
              error (results ! (submissions schedule ! k)) =
                isl (endpoint w (length (sent w) + k)
                       (map fst (tasks p) ! (submissions schedule ! k))))"
        unfolding res by simp
    qed
    from d(6) a b c e f show ?thesis by blast
  qed
  then show "distinct (submissions schedule)"
    and "\<exists>ps. length ps \<le> number_of_runs
            \<and> (\<forall>i<length ps. \<exists>s.
                  generated uniref w i = Inr s \<and> ps ! i = JObj [(''inputs'', JStr s)])
            \<and> (\<forall>i \<in> set (submissions schedule). i < length ps)
            \<and> sent w' = sent w @ map (\<lambda>i. ps ! i) (submissions schedule)
            \<and> (\<forall>results. out = Inr results \<longrightarrow>
                  length ps = number_of_runs
                \<and> set (submissions schedule) = {..<number_of_runs}
                \<and> (\<forall>k<number_of_runs.
                      error (results ! (submissions schedule ! k)) =
                        isl (endpoint w (length (sent w) + k)
                               (ps ! (submissions schedule ! k)))))"
    by blast+
next
  fix schedule workers p i
  assume h: "pool_run uniref workers number_of_runs schedule (pool_start w) = Some p
      \<and> i \<in> set (submissions schedule)"
  then have "pool_run uniref workers number_of_runs schedule (pool_start w) = Some p" by simp
  then have inv: "pool_inv uniref number_of_runs w schedule p" by (rule pool_run_inv)
  note d = pool_invD [OF inv]
  from h d(7) have i: "i < length (tasks p)" by blast
  with d(10) have "task_inv w (submissions schedule) (readings schedule) i (tasks p ! i)"
    by blast
  with h have "\<forall>t. snd (tasks p ! i) \<noteq> Started t"
    by (cases "tasks p ! i") auto
  then show "pool_step uniref workers number_of_runs (Invoke i) p = None"
    by (simp split: phase.splits)
qed

theorem benchmark_never_retries_witness:
  "benchmark_requests 8 [''MKV''] 2 2
      [Build, Start 0, Build, Invoke 0, Start 1, Invoke 1, Finish 1, Finish 0] two_call_world =
     Some (Inr [\<lparr>latency = 15, error = False, result = JObj [(''K'', JNum (1 / 2))]\<rparr>,
                \<lparr>latency = 8, error = True, result = JArr []\<rparr>],
           two_call_world\<lparr>draws := 4, ticks := 4,
             sent := [JObj [(''inputs'', JStr ''M<mask>V'')],
                      JObj [(''inputs'', JStr ''MK<mask>'')]]\<rparr>)
   \<and> distinct (submissions
         [Build, Start 0, Build, Invoke 0, Start 1, Invoke 1, Finish 1, Finish 0])
   \<and> (\<exists>p. pool_run [''MKV''] 2 2 [Build, Start 0, Build, Invoke 0, Start 1, Invoke 1]
              (pool_start two_call_world) = Some p
          \<and> pool_step [''MKV''] 2 2 (Invoke 1) p = None)"
proof -
  note all = benchmark_never_retries [of "JObj []" two_call_world 8 "[''MKV'']" 2 2]
  have run: "benchmark_requests 8 [''MKV''] 2 2
      [Build, Start 0, Build, Invoke 0, Start 1, Invoke 1, Finish 1, Finish 0] two_call_world =
     Some (Inr [\<lparr>latency = 15, error = False, result = JObj [(''K'', JNum (1 / 2))]\<rparr>,
                \<lparr>latency = 8, error = True, result = JArr []\<rparr>],
           two_call_world\<lparr>draws := 4, ticks := 4,
             sent := [JObj [(''inputs'', JStr ''M<mask>V'')],
                      JObj [(''inputs'', JStr ''MK<mask>'')]]\<rparr>)"
    by (simp add: benchmark_requests_def effective_n_jobs_def pool_start_def py_defs
        random_sequence_def random_choice_def random_randint_def slice_to_def setitem_def
        time_time_def predictor_predict_def two_call_world_def world_of_def Let_def)
  from all [THEN conjunct2, THEN conjunct1, rule_format, OF run]
  have once: "distinct (submissions
      [Build, Start 0, Build, Invoke 0, Start 1, Invoke 1, Finish 1, Finish 0])"
    by blast
  have "\<exists>p. pool_run [''MKV''] 2 2 [Build, Start 0, Build, Invoke 0, Start 1, Invoke 1]
              (pool_start two_call_world) = Some p"
    by (simp add: pool_start_def py_defs random_sequence_def random_choice_def
        random_randint_def slice_to_def setitem_def time_time_def predictor_predict_def
        two_call_world_def world_of_def Let_def)
  then obtain p where p: "pool_run [''MKV''] 2 2 [Build, Start 0, Build, Invoke 0, Start 1, Invoke 1]
              (pool_start two_call_world) = Some p"
    by blast
  have "1 \<in> set (submissions [Build, Start 0, Build, Invoke 0, Start 1, Invoke 1])" by simp
  with p all [THEN conjunct2, THEN conjunct2, rule_format,
      of 2 "[Build, Start 0, Build, Invoke 0, Start 1, Invoke 1]" p 1]
  have "pool_step [''MKV''] 2 2 (Invoke 1) p = None" by simp
  with p have "\<exists>p. pool_run [''MKV''] 2 2 [Build, Start 0, Build, Invoke 0, Start 1, Invoke 1]
              (pool_start two_call_world) = Some p
          \<and> pool_step [''MKV''] 2 2 (Invoke 1) p = None"
    by blast
  with run once show ?thesis by blast
qed

subsection \<open>The polling loop\<close>

lemma poll_cloudwatch_found:
  "cloudwatch (k + n) \<noteq> [] \<Longrightarrow> \<forall>j<n. cloudwatch (k + j) = [] \<Longrightarrow>
   poll_cloudwatch cloudwatch k = Some (Suc (k + n), read_datapoint (hd (cloudwatch (k + n))))"
proof (induction n arbitrary: k)
  case 0
  then show ?case
    by (subst poll_cloudwatch.simps) (simp split: list.splits)
next
  case (Suc n)
  from Suc.prems(2) have empty: "cloudwatch k = []" by force
  have "cloudwatch (Suc k + n) \<noteq> []" using Suc.prems(1) by simp
  moreover have "\<forall>j<n. cloudwatch (Suc k + j) = []"
  proof (intro allI impI)
    fix j assume "j < n"
    then have "Suc j < Suc n" by simp
    with Suc.prems(2) have "cloudwatch (k + Suc j) = []" by blast
    then show "cloudwatch (Suc k + j) = []" by simp
  qed
  ultimately have "poll_cloudwatch cloudwatch (Suc k) =
      Some (Suc (Suc k + n), read_datapoint (hd (cloudwatch (Suc k + n))))"
    by (rule Suc.IH)
  with empty show ?case
    by (subst poll_cloudwatch.simps) simp
qed

lemma poll_cloudwatch_some:
  assumes "poll_cloudwatch cloudwatch k = Some y"
  shows "\<exists>n. cloudwatch (k + n) \<noteq> []"
proof (rule poll_cloudwatch.raw_induct
    [where P = "\<lambda>cw k y. \<exists>n. cw (k + n) \<noteq> []", OF _ assms])
  fix poll :: "(nat \<Rightarrow> datapoint list) \<Rightarrow> nat \<Rightarrow> (nat \<times> (exn + side_latency)) option"
    and cw k y
  assume ih: "\<And>c b z. poll c b = Some z \<Longrightarrow> \<exists>n. c (b + n) \<noteq> []"
    and step: "(case cw k of [] \<Rightarrow> poll cw (Suc k)
                | d # x \<Rightarrow> Some (Suc k, read_datapoint d)) = Some y"
  show "\<exists>n. cw (k + n) \<noteq> []"
  proof (cases "cw k")
    case Nil
    with step have "poll cw (Suc k) = Some y" by simp
    from ih [OF this] obtain n where "cw (Suc k + n) \<noteq> []" by blast
    then have "cw (k + Suc n) \<noteq> []" by simp
    then show ?thesis by blast
  next
    case (Cons d ds)
    then have "cw (k + 0) \<noteq> []" by simp
    then show ?thesis by blast
  qed
qed

text \<open>
  Claim C6: with the monitoring service a sequence of responses, the polling loop leaves
  exactly when a query returns a datapoint. If the \<open>n\<close>-th response is the first with a
  datapoint, the loop ends after that query, having slept and queried \<open>n + 1\<close> times, and
  reports the first datapoint of that response. If no response ever has a datapoint, the
  loop never ends: it has no timeout. So the loop ends if and only if some response has
  a datapoint.
\<close>

theorem poll_cloudwatch_exits:
  "(\<forall>n d ds. cloudwatch n = d # ds \<and> (\<forall>j<n. cloudwatch j = []) \<longrightarrow>
        poll_cloudwatch cloudwatch 0 = Some (Suc n, read_datapoint d))
   \<and> ((\<forall>n. cloudwatch n = []) \<longrightarrow> poll_cloudwatch cloudwatch 0 = None)
   \<and> (poll_cloudwatch cloudwatch 0 \<noteq> None \<longleftrightarrow> (\<exists>n. cloudwatch n \<noteq> []))"
proof (intro conjI allI impI)
  fix n d ds assume "cloudwatch n = d # ds \<and> (\<forall>j<n. cloudwatch j = [])"
  then show "poll_cloudwatch cloudwatch 0 = Some (Suc n, read_datapoint d)"
    using poll_cloudwatch_found [of cloudwatch 0 n] by simp
next
  assume "\<forall>n. cloudwatch n = []"
  then show "poll_cloudwatch cloudwatch 0 = None"
    using poll_cloudwatch_some [of cloudwatch 0] by (cases "poll_cloudwatch cloudwatch 0") auto
next
  show "poll_cloudwatch cloudwatch 0 \<noteq> None \<longleftrightarrow> (\<exists>n. cloudwatch n \<noteq> [])"
  proof
    assume "poll_cloudwatch cloudwatch 0 \<noteq> None"
    then show "\<exists>n. cloudwatch n \<noteq> []"
      using poll_cloudwatch_some [of cloudwatch 0] by auto
  next
    assume some: "\<exists>n. cloudwatch n \<noteq> []"
    define n where "n = (LEAST n. cloudwatch n \<noteq> [])"
    from some have "cloudwatch n \<noteq> []"
      unfolding n_def by (rule LeastI_ex)
    moreover have "\<forall>j<n. cloudwatch j = []"
      unfolding n_def using not_less_Least by blast
    ultimately have "poll_cloudwatch cloudwatch 0 =
        Some (Suc n, read_datapoint (hd (cloudwatch n)))"
      using poll_cloudwatch_found [of cloudwatch 0 n] by simp
    then show "poll_cloudwatch cloudwatch 0 \<noteq> None" by simp
  qed
qed

theorem poll_cloudwatch_exits_witness:
  "poll_cloudwatch (cloudwatch_after 2 a_datapoint) 0 =
     Some (3, Inr \<lparr>side_avg = 5 / 2, side_p50 = 2, side_p90 = 4, side_p95 = 5, side_p100 = 9\<rparr>)
   \<and> poll_cloudwatch cloudwatch_silent 0 = None"
proof -
  have "cloudwatch_after 2 a_datapoint 2 = a_datapoint # []
      \<and> (\<forall>j<2. cloudwatch_after 2 a_datapoint j = [])"
    by (simp add: cloudwatch_after_def)
  with poll_cloudwatch_exits [of "cloudwatch_after 2 a_datapoint"]
  have "poll_cloudwatch (cloudwatch_after 2 a_datapoint) 0 =
      Some (Suc 2, read_datapoint a_datapoint)"
    by blast
  moreover have "read_datapoint a_datapoint =
      Inr \<lparr>side_avg = 5 / 2, side_p50 = 2, side_p90 = 4, side_p95 = 5, side_p100 = 9\<rparr>"
    by (simp add: a_datapoint_def read_datapoint_def extended_def)
  moreover have "\<forall>n. cloudwatch_silent n = []" by (simp add: cloudwatch_silent_def)
  with poll_cloudwatch_exits [of cloudwatch_silent]
  have "poll_cloudwatch cloudwatch_silent 0 = None" by blast
  ultimately show ?thesis by simp
qed

end
